theory Spec2Isabelle
  imports Complex_Main "HOL-Library.Word" "HOL-Library.Multiset"
begin

unbundle bit_operations_syntax

section \<open>Machine integers and typed arrays\<close>

text \<open>
  A \<^verbatim>\<open>Uint8Array\<close> is a list of 8-bit words. The 32-bit integer operators of
  JavaScript (\<^verbatim>\<open>^\<close>, \<^verbatim>\<open><<\<close>, \<^verbatim>\<open>>>>\<close>) work on the 32-bit pattern
  of their operand, so the seed arithmetic of the shuffle is arithmetic on \<open>32 word\<close>.
\<close>

type_synonym u8 = "8 word"
type_synonym u32 = "32 word"

section \<open>Simplex2D: the seeded permutation table\<close>

text \<open>
  \<^verbatim>\<open>xorshift32\<close> (GeneratedMapLoader.ts, lines 585-590): three xor-shift rounds;
  \<^verbatim>\<open>>>> 17\<close> is the logical shift and the final \<^verbatim>\<open>>>> 0\<close> reads the pattern
  as unsigned.
\<close>

definition xorshift32 :: "u32 \<Rightarrow> u32" where
  "xorshift32 x0 =
     (let x1 = x0 XOR push_bit 13 x0;
          x2 = x1 XOR drop_bit 17 x1;
          x3 = x2 XOR push_bit 5 x2
      in x3)"

text \<open>
  The loop \<^verbatim>\<open>for (let i = 255; i > 0; i--)\<close> of \<^verbatim>\<open>buildPermutation\<close>
  (lines 575-581): the first argument is the loop variable \<open>i\<close>, the second the generator
  state \<open>s\<close>, the third the table \<open>p\<close>.
\<close>

fun shuffle :: "nat \<Rightarrow> u32 \<Rightarrow> u8 list \<Rightarrow> u8 list" where
  "shuffle 0 s p = p"
| "shuffle (Suc k) s p =
     (let i = Suc k;
          s' = xorshift32 s;
          j = unat s' mod (i + 1);
          tmp = p ! i;
          p1 = p[i := p ! j];
          p2 = p1[j := tmp]
      in shuffle k s' p2)"

text \<open>
  \<^verbatim>\<open>buildPermutation\<close> (lines 569-583). The seed is a JavaScript number holding an
  integer; \<^verbatim>\<open>seed >>> 0\<close> reduces it modulo \<open>2 ^ 32\<close>.
\<close>

definition buildPermutation :: "int \<Rightarrow> u8 list" where
  "buildPermutation sd = shuffle 255 (word_of_int sd) (map of_nat [0..<256])"


text \<open>
  The rest of \<^verbatim>\<open>Simplex2D\<close> (lines 483-598). Its integer arithmetic is exact: in
  \<^verbatim>\<open>randFloat\<close> the product \<^verbatim>\<open>1664525 * s\<close> stays below \<open>2 ^ 53\<close>, so
  \<^verbatim>\<open>>>> 0\<close> gives the 32-bit result, and \<^verbatim>\<open>i & 255\<close> of an integer-valued number
  is \<open>i mod 256\<close>. The two gradient functions are parameters:
  \<open>gradCos F r\<close> stands for the 32-bit float stored for
  \<^verbatim>\<open>Math.cos(r * Math.PI * 2)\<close>, \<open>gradSin F r\<close> for the sine. The other arithmetic
  of \<^verbatim>\<open>noise\<close> is on reals, with \<^verbatim>\<open>F2\<close> and \<^verbatim>\<open>G2\<close> the decimals of the source.
\<close>

record FloatPrims =
  gradCos :: "real \<Rightarrow> real"
  gradSin :: "real \<Rightarrow> real"

record Simplex2D =
  perm :: "u8 list"
  gradX :: "real list"
  gradY :: "real list"

definition randFloat :: "int \<Rightarrow> real" where
  "randFloat sd =
     (let s0 = (word_of_int sd XOR 2654435769 :: u32);
          s1 = 1664525 * s0 + 1013904223
      in real (unat (s1 AND 268435455)) / 268435455)"

definition Simplex2D_new :: "FloatPrims \<Rightarrow> int \<Rightarrow> Simplex2D" where
  "Simplex2D_new F sd =
     \<lparr> perm = buildPermutation sd,
       gradX = map (\<lambda>i. gradCos F (randFloat (sd + int i * 31))) [0..<256],
       gradY = map (\<lambda>i. gradSin F (randFloat (sd + int i * 31))) [0..<256] \<rparr>"

definition gradIndex :: "Simplex2D \<Rightarrow> int \<Rightarrow> int \<Rightarrow> nat" where
  "gradIndex S i j =
     (let idx = perm S ! nat (i mod 256) XOR perm S ! nat (j mod 256)
      in unat (idx AND 255))"

definition noise :: "Simplex2D \<Rightarrow> real \<Rightarrow> real \<Rightarrow> real" where
  "noise S x y =
     (let F2 = 3660254037844386 / 10 ^ 16;
          G2 = 21132486540518713 / 10 ^ 17;
          s = (x + y) * F2;
          i = \<lfloor>x + s\<rfloor>;
          j = \<lfloor>y + s\<rfloor>;
          t = of_int (i + j) * G2;
          X0 = of_int i - t;
          Y0 = of_int j - t;
          x0 = x - X0;
          y0 = y - Y0;
          i1 = (if x0 > y0 then 1 else 0);
          j1 = (if x0 > y0 then 0 else 1);
          x1 = x0 - of_int i1 + G2;
          y1 = y0 - of_int j1 + G2;
          x2 = x0 - 1 + 2 * G2;
          y2 = y0 - 1 + 2 * G2;
          gi0 = gradIndex S i j;
          gi1 = gradIndex S (i + i1) (j + j1);
          gi2 = gradIndex S (i + 1) (j + 1);
          t0 = 1 / 2 - x0 * x0 - y0 * y0;
          n0 = (if t0 \<ge> 0 then (t0 * t0) * (t0 * t0) * (gradX S ! gi0 * x0 + gradY S ! gi0 * y0)
                else 0);
          t1 = 1 / 2 - x1 * x1 - y1 * y1;
          n1 = (if t1 \<ge> 0 then (t1 * t1) * (t1 * t1) * (gradX S ! gi1 * x1 + gradY S ! gi1 * y1)
                else 0);
          t2 = 1 / 2 - x2 * x2 - y2 * y2;
          n2 = (if t2 \<ge> 0 then (t2 * t2) * (t2 * t2) * (gradX S ! gi2 * x2 + gradY S ! gi2 * y2)
                else 0)
      in 70 * (n0 + n1 + n2))"

section \<open>Generation parameters\<close>

text \<open>
  The record \<^verbatim>\<open>GeneratedParams\<close> of the parameter store. Numbers that count
  (octaves, region sizes, radius, seed) are integers, dimensions are naturals, the other
  numbers are reals: IEEE-754 rounding, infinities and NaN are outside the embedding.
\<close>

record GeneratedParams =
  octaves :: int
  lacunarity :: real
  persistence :: real
  landThreshold :: real
  seed :: int
  contrastGamma :: real
  width :: nat
  height :: nat
  width4x :: nat
  height4x :: nat
  width16x :: nat
  height16x :: nat
  minLandRegionSize :: int
  minWaterRegionSize :: int
  smoothingRadius :: int
  ridgeAccent :: bool

definition defaultParams :: GeneratedParams where
  "defaultParams =
     \<lparr> octaves = 5, lacunarity = 2, persistence = 6 / 10, landThreshold = 46 / 100,
       seed = 123456789, contrastGamma = 8 / 10,
       width = 512, height = 256, width4x = 1024, height4x = 512,
       width16x = 2048, height16x = 1024,
       minLandRegionSize = 30, minWaterRegionSize = 200,
       smoothingRadius = 1, ridgeAccent = True \<rparr>"

text \<open>
  The floating-point primitives the generator calls, taken as parameters:
  \<open>simplexNoise s\<close> is the evaluator \<^verbatim>\<open>new Simplex2D(s).noise\<close>, a function of the
  seed and the query point only; \<open>mathPow\<close> is \<^verbatim>\<open>Math.pow\<close>. Every theorem below
  holds for all such functions.
\<close>

record Numerics =
  simplexNoise :: "int \<Rightarrow> real \<Rightarrow> real \<Rightarrow> real"
  mathPow :: "real \<Rightarrow> real \<Rightarrow> real"

text \<open>
  The numerics with the evaluator of the source: \<^verbatim>\<open>new Simplex2D(seed).noise\<close>.
\<close>

definition simplexNumerics :: "FloatPrims \<Rightarrow> (real \<Rightarrow> real \<Rightarrow> real) \<Rightarrow> Numerics" where
  "simplexNumerics F pw = \<lparr> simplexNoise = (\<lambda>sd. noise (Simplex2D_new F sd)), mathPow = pw \<rparr>"

section \<open>Map products and the loader\<close>

datatype GameMapType = Generated | OtherMap string

datatype error = Error string

text \<open>
  The type \<^verbatim>\<open>Nation\<close> is declared in TerrainMapLoader.ts; the loader never builds
  one (\<^verbatim>\<open>generateNations\<close> returns the empty list), so its fields are left out.
\<close>

datatype Nation = Nation

record MapMetadata =
  m_width :: nat
  m_height :: nat
  num_land_tiles :: nat

record MapManifest =
  name :: string
  map_1x :: MapMetadata
  map_4x :: MapMetadata
  map_16x :: MapMetadata
  nations :: "Nation list"

record MapData =
  mapBin :: "u8 list"
  map4xBin :: "u8 list"
  map16xBin :: "u8 list"
  manifest :: MapManifest
  webpPath :: string

text \<open>
  A \<^verbatim>\<open>GeneratedMapLoader\<close> instance: its cache \<^verbatim>\<open>maps\<close> and the constructor
  argument \<^verbatim>\<open>params\<close> (\<open>None\<close> when it was not given).
\<close>

record Loader =
  maps :: "GameMapType \<rightharpoonup> MapData"
  params :: "GeneratedParams option"

definition newLoader :: "GeneratedParams option \<Rightarrow> Loader" where
  "newLoader ps = \<lparr> maps = Map.empty, params = ps \<rparr>"

text \<open>\<^verbatim>\<open>this.params ?? GeneratedParams.get()\<close>\<close>

definition effParams :: "GeneratedParams \<Rightarrow> Loader \<Rightarrow> GeneratedParams" where
  "effParams store this = (case params this of None \<Rightarrow> store | Some p \<Rightarrow> p)"

section \<open>Typed-array access\<close>

text \<open>
  Reading a typed array out of range gives \<^verbatim>\<open>undefined\<close> (\<open>None\<close>), writing out of
  range does nothing. In a bit operation \<^verbatim>\<open>undefined\<close> counts as 0, and in a
  condition it is false.
\<close>

type_synonym cell = "int \<times> int"

definition u8_get :: "u8 list \<Rightarrow> int \<Rightarrow> u8 option" where
  "u8_get a i = (if 0 \<le> i \<and> i < int (length a) then Some (a ! nat i) else None)"

definition u8_set :: "u8 list \<Rightarrow> int \<Rightarrow> u8 \<Rightarrow> u8 list" where
  "u8_set a i v = (if 0 \<le> i \<and> i < int (length a) then a[nat i := v] else a)"

definition bits :: "u8 option \<Rightarrow> u8" where
  "bits c = (case c of None \<Rightarrow> 0 | Some b \<Rightarrow> b)"

definition truthy :: "u8 option \<Rightarrow> bool" where
  "truthy c = (case c of None \<Rightarrow> False | Some b \<Rightarrow> b \<noteq> 0)"

text \<open>\<^verbatim>\<open>(cell & (1 << IS_LAND_BIT)) !== 0\<close> and the same test of the OCEAN bit.\<close>

definition isLandCell :: "u8 option \<Rightarrow> bool" where
  "isLandCell c = (bits c AND 128 \<noteq> 0)"

definition isOceanCell :: "u8 option \<Rightarrow> bool" where
  "isOceanCell c = (bits c AND 32 \<noteq> 0)"

text \<open>\<^verbatim>\<open>index(x, y) = y * width + x\<close>, and the four directions in the source's order.\<close>

definition index :: "nat \<Rightarrow> int \<Rightarrow> int \<Rightarrow> int" where
  "index w x y = y * int w + x"

definition dirs :: "cell list" where
  "dirs = [(1, 0), (-1, 0), (0, 1), (0, -1)]"

text \<open>
  The cells of the grid in the order of
  \<^verbatim>\<open>for (y = 0; y < height; y++) for (x = 0; x < width; x++)\<close>.
\<close>

definition cells :: "nat \<Rightarrow> nat \<Rightarrow> cell list" where
  "cells w h = concat (map (\<lambda>y. map (\<lambda>x. (int x, int y)) [0..<w]) [0..<h])"

section \<open>Noise composition and tile encoding\<close>

text \<open>The octave table of lines 120-132: pairs \<open>(freq, amp)\<close>, read from the store.\<close>

definition buildOctaves :: "Numerics \<Rightarrow> GeneratedParams \<Rightarrow> (real \<times> real) list" where
  "buildOctaves N p =
     map (\<lambda>i. ((1 / 256) * mathPow N (lacunarity p) (real i),
               (55 / 100) * mathPow N (persistence p) (real i)))
         [0..<nat (octaves p)]"

definition ampSumOf :: "(real \<times> real) list \<Rightarrow> real" where
  "ampSumOf octs = (let s = sum_list (map snd octs) in if s \<le> 0 then 1 else s)"

text \<open>
  The loop of lines 138-140. The second component counts the calls of the noise
  evaluator, as a call-count instrumentation would.
\<close>

definition octaveStep ::
  "(real \<Rightarrow> real \<Rightarrow> real) \<Rightarrow> real \<Rightarrow> real \<Rightarrow> real \<times> real \<Rightarrow> real \<times> nat \<Rightarrow> real \<times> nat" where
  "octaveStep nz x y oc acc =
     (case oc of (freq, amp) \<Rightarrow> (case acc of (v, calls) \<Rightarrow>
        (v + amp * nz (x * freq) (y * freq), Suc calls)))"

definition sumOctaves ::
  "(real \<Rightarrow> real \<Rightarrow> real) \<Rightarrow> (real \<times> real) list \<Rightarrow> real \<Rightarrow> real \<Rightarrow> nat \<Rightarrow> real \<times> nat" where
  "sumOctaves nz octs x y calls = fold (octaveStep nz x y) octs (0, calls)"

text \<open>
  Lines 147-164: the terrain byte of a cell with composited value \<open>v\<close>. When
  \<open>landThreshold = 1\<close> the quotient of line 151 is \<open>+Infinity\<close> for a land cell
  (its numerator is positive), which the clamp turns into 1; HOL's division by zero
  would give 0, so the case is written out.
\<close>

definition encodeByte :: "real \<Rightarrow> real \<Rightarrow> u8" where
  "encodeByte lt v =
     (let isLand = (v > lt);
          vLand = (if isLand
                   then (if 1 - lt = 0 then 1 else min 1 (max 0 ((v - lt) / (1 - lt))))
                   else 0);
          magnitude = max 0 (min 31 \<lfloor>vLand * 31\<rfloor>);
          landBit = (if isLand then push_bit 7 1 else 0);
          oceanBit = (if isLand then 0 else push_bit 5 1)
      in (landBit OR oceanBit OR (word_of_int magnitude AND 31)) AND 255)"

text \<open>
  One iteration of the cell loop (lines 136-165): the state is the buffer, the running
  index \<open>idx\<close> and the call counter.
\<close>

definition encodeStep ::
  "Numerics \<Rightarrow> (real \<Rightarrow> real \<Rightarrow> real) \<Rightarrow> (real \<times> real) list \<Rightarrow> real \<Rightarrow> real \<Rightarrow> real \<Rightarrow>
   cell \<Rightarrow> u8 list \<times> nat \<times> nat \<Rightarrow> u8 list \<times> nat \<times> nat" where
  "encodeStep N nz octs ampSum gamma lt c st =
     (case c of (x, y) \<Rightarrow> (case st of (out, idx, calls) \<Rightarrow>
        (case sumOctaves nz octs (of_int x) (of_int y) calls of (v0, calls') \<Rightarrow>
           let v1 = (v0 / ampSum + 1) / 2;
               v = mathPow N (min 1 (max 0 v1)) gamma
           in (out[idx := encodeByte lt v], Suc idx, calls'))))"

definition encodeField ::
  "Numerics \<Rightarrow> GeneratedParams \<Rightarrow> Loader \<Rightarrow> nat \<Rightarrow> nat \<Rightarrow> int \<Rightarrow> real \<Rightarrow> nat \<Rightarrow> u8 list \<times> nat" where
  "encodeField N store this w h sd lt calls =
     (let nz = simplexNoise N sd;
          out = replicate (w * h) 0;
          octs = buildOctaves N store;
          ampSum = ampSumOf octs;
          gamma = contrastGamma (effParams store this)
      in case fold (encodeStep N nz octs ampSum gamma lt) (cells w h) (out, 0, calls) of
           (out', idx, calls') \<Rightarrow> (out', calls'))"

section \<open>Region pruning\<close>

text \<open>
  The body of the direction loop inside \<^verbatim>\<open>bfs\<close> (lines 398-408), for the cell
  \<open>c\<close> just taken from the queue and one direction \<open>d\<close>; the state is the
  \<^verbatim>\<open>visited\<close> array and the queue.
\<close>

definition bfsVisit ::
  "u8 list \<Rightarrow> nat \<Rightarrow> nat \<Rightarrow> u8 \<Rightarrow> cell \<Rightarrow> cell \<Rightarrow> u8 list \<times> cell list \<Rightarrow> u8 list \<times> cell list" where
  "bfsVisit grid w h target c d st =
     (case c of (cx, cy) \<Rightarrow> (case d of (dx, dy) \<Rightarrow> (case st of (visited, q) \<Rightarrow>
        let nx = cx + dx; ny = cy + dy in
        if nx < 0 \<or> ny < 0 \<or> nx \<ge> int w \<or> ny \<ge> int h then (visited, q)
        else let ni = index w nx ny in
          if u8_get visited ni = Some 1 then (visited, q)
          else if u8_get grid ni = Some target then (u8_set visited ni 1, q @ [(nx, ny)])
          else (visited, q))))"

text \<open>
  The loop \<^verbatim>\<open>while (q.length > 0)\<close> of \<^verbatim>\<open>bfs\<close> (lines 393-409). It ends
  only because \<^verbatim>\<open>visited\<close> is as long as the grid, which the function itself cannot
  see: \<open>None\<close> stands for a run that never returns.
\<close>

partial_function (option) bfsLoop ::
  "u8 list \<Rightarrow> nat \<Rightarrow> nat \<Rightarrow> u8 \<Rightarrow> u8 list \<Rightarrow> cell list \<Rightarrow> cell list \<Rightarrow> nat \<Rightarrow>
   (u8 list \<times> nat \<times> cell list) option" where
  "bfsLoop grid w h target visited q found sz =
     (case q of
        [] \<Rightarrow> Some (visited, sz, found)
      | c # rest \<Rightarrow>
          (case fold (bfsVisit grid w h target c) dirs (visited, rest) of
             (visited', q') \<Rightarrow> bfsLoop grid w h target visited' q' (found @ [c]) (Suc sz)))"

declare bfsLoop.simps [code]

definition bfs ::
  "u8 list \<Rightarrow> nat \<Rightarrow> nat \<Rightarrow> u8 list \<Rightarrow> int \<Rightarrow> int \<Rightarrow> u8 \<Rightarrow> (u8 list \<times> nat \<times> cell list) option" where
  "bfs grid w h visited sx sy target =
     bfsLoop grid w h target (u8_set visited (index w sx sy) 1) [(sx, sy)] [] 0"

text \<open>
  The two scans of \<^verbatim>\<open>removeSmallRegions\<close> (lines 415-427 and 433-445) are the
  same loop with \<open>(target, fill) = (1, 0)\<close> for land and \<open>(0, 1)\<close> for water.
  The state is the grid and \<^verbatim>\<open>visited\<close>.
\<close>

fun regionScan ::
  "nat \<Rightarrow> nat \<Rightarrow> u8 \<Rightarrow> u8 \<Rightarrow> int \<Rightarrow> cell list \<Rightarrow> u8 list \<times> u8 list \<Rightarrow> (u8 list \<times> u8 list) option" where
  "regionScan w h target fill minSize [] st = Some st"
| "regionScan w h target fill minSize ((x, y) # rest) (grid, visited) =
     (let i = index w x y in
      if u8_get visited i = Some 0 \<and> u8_get grid i = Some target
      then (case bfs grid w h visited x y target of
              None \<Rightarrow> None
            | Some (visited', sz, found) \<Rightarrow>
                regionScan w h target fill minSize rest
                  (if int sz < minSize
                   then fold (\<lambda>(cx, cy) g. u8_set g (index w cx cy) fill) found grid
                   else grid,
                   visited'))
      else regionScan w h target fill minSize rest (grid, visited))"

definition removeSmallRegions :: "u8 list \<Rightarrow> nat \<Rightarrow> nat \<Rightarrow> int \<Rightarrow> int \<Rightarrow> u8 list option" where
  "removeSmallRegions grid w h minLandSize minWaterSize =
     (case regionScan w h 1 0 minLandSize (cells w h) (grid, replicate (length grid) 0) of
        None \<Rightarrow> None
      | Some (grid1, visited1) \<Rightarrow>
          (case regionScan w h 0 1 minWaterSize (cells w h) (grid1, map (\<lambda>_. 0) visited1) of
             None \<Rightarrow> None
           | Some (grid2, visited2) \<Rightarrow> Some grid2))"

section \<open>Ocean flood fill and shoreline\<close>

definition inBounds :: "nat \<Rightarrow> nat \<Rightarrow> int \<Rightarrow> int \<Rightarrow> bool" where
  "inBounds w h x y = (x \<ge> 0 \<and> x < int w \<and> y \<ge> 0 \<and> y < int h)"

text \<open>The queue after the two seeding loops (lines 194-209), in the order of the pushes.\<close>

definition edgeSeeds :: "nat \<Rightarrow> nat \<Rightarrow> u8 list \<Rightarrow> cell list" where
  "edgeSeeds w h out =
     filter (\<lambda>(x, y). \<not> isLandCell (u8_get out (index w x y)))
       (concat (map (\<lambda>x. [(int x, 0), (int x, int h - 1)]) [0..<w]) @
        concat (map (\<lambda>y. [(0, int y), (int w - 1, int y)]) [0..<h]))"

text \<open>
  The loop of lines 212-241. The direction loop only pushes, so the cells it adds are
  the neighbours that pass its three tests, in the order of \<open>dirs\<close>.
\<close>

partial_function (option) oceanLoop ::
  "nat \<Rightarrow> nat \<Rightarrow> u8 list \<Rightarrow> u8 list \<Rightarrow> cell list \<Rightarrow> u8 list option" where
  "oceanLoop w h out visited q =
     (case q of
        [] \<Rightarrow> Some out
      | c # rest \<Rightarrow>
          (case c of (cx, cy) \<Rightarrow>
             let ci = index w cx cy in
             if truthy (u8_get visited ci) then oceanLoop w h out visited rest
             else
               let visited' = u8_set visited ci 1 in
               if \<not> isLandCell (u8_get out ci)
               then
                 let out' = u8_set out ci (bits (u8_get out ci) OR push_bit 5 1);
                     pushed =
                       filter (\<lambda>(nx, ny). inBounds w h nx ny
                                 \<and> \<not> truthy (u8_get visited' (index w nx ny))
                                 \<and> \<not> isLandCell (u8_get out' (index w nx ny)))
                         (map (\<lambda>(dx, dy). (cx + dx, cy + dy)) dirs)
                 in oceanLoop w h out' visited' (rest @ pushed)
               else oceanLoop w h out visited' rest))"

declare oceanLoop.simps [code]

definition floodOcean :: "nat \<Rightarrow> nat \<Rightarrow> u8 list \<Rightarrow> u8 list option" where
  "floodOcean w h out = oceanLoop w h out (replicate (w * h) 0) (edgeSeeds w h out)"

text \<open>The body of the shoreline pass (lines 246-273) at cell \<open>(x, y)\<close>.\<close>

definition shoreStep :: "nat \<Rightarrow> nat \<Rightarrow> cell \<Rightarrow> u8 list \<Rightarrow> u8 list" where
  "shoreStep w h c out =
     (case c of (x, y) \<Rightarrow>
        let i = index w x y in
        if \<not> isLandCell (u8_get out i) then out
        else
          let adjacentOcean =
                ((x > 0 \<and> isOceanCell (u8_get out (index w (x - 1) y))) \<or>
                 (x + 1 < int w \<and> isOceanCell (u8_get out (index w (x + 1) y))) \<or>
                 (y > 0 \<and> isOceanCell (u8_get out (index w x (y - 1)))) \<or>
                 (y + 1 < int h \<and> isOceanCell (u8_get out (index w x (y + 1)))))
          in if adjacentOcean then u8_set out i (bits (u8_get out i) OR push_bit 6 1) else out)"

definition markShoreline :: "nat \<Rightarrow> nat \<Rightarrow> u8 list \<Rightarrow> u8 list" where
  "markShoreline w h out = fold (shoreStep w h) (cells w h) out"

section \<open>Magnitude smoothing and ridge accent\<close>

text \<open>
  The offsets of \<^verbatim>\<open>for (dy = -r; dy <= r; dy++) for (dx = -r; dx <= r; dx++)\<close>, and the
  bytes of the window's in-bounds land cells, read from the copy.
\<close>

definition window :: "int \<Rightarrow> cell list" where
  "window r = concat (map (\<lambda>dy. map (\<lambda>dx. (dx, dy)) [- r..r]) [- r..r])"

definition landWindow :: "nat \<Rightarrow> nat \<Rightarrow> u8 list \<Rightarrow> int \<Rightarrow> int \<Rightarrow> int \<Rightarrow> u8 list" where
  "landWindow w h copy r x y =
     map (\<lambda>(nx, ny). bits (u8_get copy (index w nx ny)))
       (filter (\<lambda>(nx, ny). \<not> (nx < 0 \<or> ny < 0 \<or> nx \<ge> int w \<or> ny \<ge> int h)
                  \<and> bits (u8_get copy (index w nx ny)) AND push_bit 7 1 \<noteq> 0)
          (map (\<lambda>(dx, dy). (x + dx, y + dy)) (window r)))"

text \<open>
  \<^verbatim>\<open>Math.floor(sum / Math.max(1, count))\<close>: both numbers are non-negative integers, so
  the floored quotient is the integer quotient (\<open>total\<close> is the source's \<^verbatim>\<open>sum\<close>,
  \<open>cnt\<close> its \<^verbatim>\<open>count\<close>).
\<close>

definition windowAvg :: "nat \<Rightarrow> nat \<Rightarrow> u8 list \<Rightarrow> int \<Rightarrow> int \<Rightarrow> int \<Rightarrow> nat" where
  "windowAvg w h copy r x y =
     (let ns = landWindow w h copy r x y;
          total = sum_list (map (\<lambda>b. unat (b AND 31)) ns);
          cnt = length ns
      in total div max 1 cnt)"

definition smoothStep :: "nat \<Rightarrow> nat \<Rightarrow> u8 list \<Rightarrow> int \<Rightarrow> cell \<Rightarrow> u8 list \<Rightarrow> u8 list" where
  "smoothStep w h copy radius c out =
     (case c of (x, y) \<Rightarrow>
        let i = index w x y in
        if bits (u8_get copy i) AND push_bit 7 1 = 0 then out
        else if radius = 0 then out
        else
          let avg = min 31 (max 0 (windowAvg w h copy radius x y))
          in u8_set out i ((bits (u8_get out i) AND NOT 31) OR (of_nat avg AND 31)))"

definition smoothMagnitude :: "GeneratedParams \<Rightarrow> Loader \<Rightarrow> nat \<Rightarrow> nat \<Rightarrow> u8 list \<Rightarrow> u8 list" where
  "smoothMagnitude store this w h out =
     (let copy = out;
          radius = max 0 (min 2 (smoothingRadius (effParams store this)))
      in fold (smoothStep w h copy radius) (cells w h) out)"

definition ridgeStep :: "nat \<Rightarrow> nat \<Rightarrow> u8 list \<Rightarrow> cell \<Rightarrow> u8 list \<Rightarrow> u8 list" where
  "ridgeStep w h copy c out =
     (case c of (x, y) \<Rightarrow>
        let i = index w x y in
        if bits (u8_get copy i) AND push_bit 7 1 = 0 then out
        else
          let selfMag = unat (bits (u8_get copy i) AND 31);
              avg = windowAvg w h copy 1 x y
          in if selfMag \<ge> avg + 2
             then let boosted = min 31 (selfMag + 2)
                  in u8_set out i ((bits (u8_get out i) AND NOT 31) OR (of_nat boosted AND 31))
             else out)"

definition ridgeAccentPass :: "GeneratedParams \<Rightarrow> Loader \<Rightarrow> nat \<Rightarrow> nat \<Rightarrow> u8 list \<Rightarrow> u8 list" where
  "ridgeAccentPass store this w h out =
     (if ridgeAccent (effParams store this)
      then fold (ridgeStep w h out) (cells w h) out
      else out)"

section \<open>Terrain generation and the map product\<close>

text \<open>
  \<^verbatim>\<open>generateTerrainBin\<close> (lines 109-357). It reads the octave parameters and the
  region sizes from the global store, and gamma, radius and the ridge flag from the
  loader's own parameters when it has them. The last argument and the second component
  of the result are the count of noise evaluations before and after.
\<close>

definition generateTerrainBin ::
  "Numerics \<Rightarrow> GeneratedParams \<Rightarrow> Loader \<Rightarrow> nat \<Rightarrow> nat \<Rightarrow> int \<Rightarrow> real \<Rightarrow> nat \<Rightarrow> (u8 list \<times> nat) option" where
  "generateTerrainBin N store this w h sd lt calls =
     (case encodeField N store this w h sd lt calls of
        (out0, calls') \<Rightarrow>
          (case removeSmallRegions out0 w h (minLandRegionSize store) (minWaterRegionSize store) of
             None \<Rightarrow> None
           | Some out1 \<Rightarrow>
               (case floodOcean w h out1 of
                  None \<Rightarrow> None
                | Some out2 \<Rightarrow>
                    Some (ridgeAccentPass store this w h
                            (smoothMagnitude store this w h (markShoreline w h out2)),
                          calls'))))"

text \<open>\<^verbatim>\<open>countLand\<close> (lines 359-363).\<close>

definition countLand :: "u8 list \<Rightarrow> nat" where
  "countLand buf = fold (\<lambda>b c. c + (if b = 1 then 1 else 0)) buf 0"

definition generateNations :: "Nation list \<Rightarrow> Nation list" where
  "generateNations defaults = []"

definition placeholderThumbnail :: string where
  "placeholderThumbnail =
     ''data:image/png;base64,iVBORw0KGgoAAAANSUhEUgAAAAEAAAABCAQAAAC1HAwCAAAAC0lEQVR42mP8/x8AAoMBgYQJk+UAAAAASUVORK5CYII=''"

text \<open>
  \<^verbatim>\<open>getMapData\<close> (lines 31-99). The world it runs in is the loader instance and the
  count of noise evaluations so far; the result is the thrown error or the returned
  product, with the world afterwards. The members of \<^verbatim>\<open>GameMapType\<close> other than
  \<^verbatim>\<open>Generated\<close> are given by their string value, which the message interpolates.
\<close>

fun getMapData ::
  "Numerics \<Rightarrow> GeneratedParams \<Rightarrow> Loader \<times> nat \<Rightarrow> GameMapType \<Rightarrow>
   ((error + MapData) \<times> Loader \<times> nat) option" where
  "getMapData N store (this, calls) (OtherMap s) =
     Some (Inl (Error (''GeneratedMapLoader only supports GameMapType.Generated, received: '' @ s)),
           this, calls)"
| "getMapData N store (this, calls) Generated =
     (case maps this Generated of
        Some cached \<Rightarrow> Some (Inr cached, this, calls)
      | None \<Rightarrow>
          let p = effParams store this in
          (case generateTerrainBin N store this (width p) (height p) (seed p) (landThreshold p) calls of
             None \<Rightarrow> None
           | Some (bin1, c1) \<Rightarrow>
          (case generateTerrainBin N store this (width4x p) (height4x p) (seed p + 101)
                  (landThreshold p) c1 of
             None \<Rightarrow> None
           | Some (bin4, c2) \<Rightarrow>
          (case generateTerrainBin N store this (width16x p) (height16x p) (seed p + 202)
                  (landThreshold p) c2 of
             None \<Rightarrow> None
           | Some (bin16, c3) \<Rightarrow>
               let mf = \<lparr> name = ''Generated'',
                          map_1x = \<lparr> m_width = width p, m_height = height p,
                                     num_land_tiles = countLand bin1 \<rparr>,
                          map_4x = \<lparr> m_width = width4x p, m_height = height4x p,
                                     num_land_tiles = countLand bin4 \<rparr>,
                          map_16x = \<lparr> m_width = width16x p, m_height = height16x p,
                                      num_land_tiles = countLand bin16 \<rparr>,
                          nations = generateNations [] \<rparr>;
                   data = \<lparr> mapBin = bin1, map4xBin = bin4, map16xBin = bin16,
                            manifest = mf, webpPath = placeholderThumbnail \<rparr>
               in Some (Inr data, this\<lparr> maps := (maps this)(Generated \<mapsto> data) \<rparr>, c3)))))"

section \<open>The bit layout of a terrain byte\<close>

text \<open>
  Bit 7 is \<^verbatim>\<open>IS_LAND\<close>, bit 6 \<^verbatim>\<open>SHORELINE\<close>, bit 5 \<^verbatim>\<open>OCEAN\<close>, and the low five
  bits (\<^verbatim>\<open>MAG_MASK = 0x1f\<close>) are the magnitude.
\<close>

definition isLand :: "u8 \<Rightarrow> bool" where
  "isLand b = (b AND 128 \<noteq> 0)"

definition isOcean :: "u8 \<Rightarrow> bool" where
  "isOcean b = (b AND 32 \<noteq> 0)"

definition isShoreline :: "u8 \<Rightarrow> bool" where
  "isShoreline b = (b AND 64 \<noteq> 0)"

definition magnitude :: "u8 \<Rightarrow> nat" where
  "magnitude b = unat (b AND 31)"

section \<open>Two small inputs\<close>

text \<open>
  Two concrete settings on a 3 by 3 grid, used to run the generator: one octave,
  threshold \<open>1/2\<close>, gamma 1, minimum land region 2, minimum water region 0, the other
  parameters at their defaults. The first noise field is 1 at cell \<open>(1, 1)\<close> and \<open>-1\<close>
  elsewhere (one land cell in water), the second is its negation (one water cell
  enclosed by land). \<open>exPow\<close> agrees with \<^verbatim>\<open>Math.pow\<close> at the exponents 0 and 1,
  the only ones these settings use.
\<close>

definition exPow :: "real \<Rightarrow> real \<Rightarrow> real" where
  "exPow b e = (if e = 0 then 1 else b)"

definition islandNoise :: "int \<Rightarrow> real \<Rightarrow> real \<Rightarrow> real" where
  "islandNoise s x y = (if x = 1 / 256 \<and> y = 1 / 256 then 1 else - 1)"

definition lakeNoise :: "int \<Rightarrow> real \<Rightarrow> real \<Rightarrow> real" where
  "lakeNoise s x y = (if x = 1 / 256 \<and> y = 1 / 256 then - 1 else 1)"

definition islandNumerics :: Numerics where
  "islandNumerics = \<lparr> simplexNoise = islandNoise, mathPow = exPow \<rparr>"

definition lakeNumerics :: Numerics where
  "lakeNumerics = \<lparr> simplexNoise = lakeNoise, mathPow = exPow \<rparr>"

definition exParams :: GeneratedParams where
  "exParams = defaultParams\<lparr> octaves := 1, landThreshold := 1 / 2, contrastGamma := 1,
      width := 3, height := 3, width4x := 1, height4x := 1, width16x := 1, height16x := 1,
      minLandRegionSize := 2, minWaterRegionSize := 0 \<rparr>"

section \<open>Notions used in the proofs\<close>

text \<open>
  A byte is well formed when it is the water byte \<open>32\<close> (only \<^verbatim>\<open>OCEAN\<close> set) or a land
  byte with \<^verbatim>\<open>OCEAN\<close> clear.
\<close>

definition tile_ok :: "u8 \<Rightarrow> bool" where
  "tile_ok b = (b = 32 \<or> (b AND 128 \<noteq> 0 \<and> b AND 32 = 0))"

text \<open>The cells a breadth-first search of the pruning pass has not marked yet.\<close>

definition unmarked :: "u8 list \<Rightarrow> nat" where
  "unmarked v = length (filter (\<lambda>b. b \<noteq> 1) v)"

text \<open>
  The measure of the flood fill: the cells not yet visited, and the queue, where an
  entry whose index lies outside the grid weighs as much as a whole visit.
\<close>

definition unvisited :: "u8 list \<Rightarrow> nat" where
  "unvisited v = length (filter (\<lambda>b. b = 0) v)"

definition qweight :: "nat \<Rightarrow> nat \<Rightarrow> cell list \<Rightarrow> nat" where
  "qweight w n q =
     sum_list (map (\<lambda>(x, y). if 0 \<le> index w x y \<and> index w x y < int n then 1 else 5) q)"

text \<open>What the flood fill may do to a byte: nothing, or set \<^verbatim>\<open>OCEAN\<close> on a water byte.\<close>

definition flood_rel :: "u8 \<Rightarrow> u8 \<Rightarrow> bool" where
  "flood_rel a b = (b = a \<or> (a AND 128 = 0 \<and> b = a OR 32))"

text \<open>
  The invariant of the two magnitude passes, between the copy they read and the buffer
  they write.
\<close>

definition mag_inv :: "u8 list \<Rightarrow> u8 list \<Rightarrow> bool" where
  "mag_inv copy out =
     (length out = length copy \<and> list_all tile_ok out
      \<and> (\<forall>j<length copy. out ! j AND 128 = copy ! j AND 128))"

text \<open>
  The test of the shoreline pass at a cell (is it land with an \<^verbatim>\<open>OCEAN\<close>-marked
  neighbour in bounds), and the relations the proofs keep between a buffer and a later
  one: same \<^verbatim>\<open>IS_LAND\<close> and \<^verbatim>\<open>OCEAN\<close> bits, and same three flag bits.
\<close>

definition adjOcean :: "nat \<Rightarrow> nat \<Rightarrow> u8 list \<Rightarrow> int \<Rightarrow> int \<Rightarrow> bool" where
  "adjOcean w h out x y =
     ((x > 0 \<and> isOceanCell (u8_get out (index w (x - 1) y))) \<or>
      (x + 1 < int w \<and> isOceanCell (u8_get out (index w (x + 1) y))) \<or>
      (y > 0 \<and> isOceanCell (u8_get out (index w x (y - 1)))) \<or>
      (y + 1 < int h \<and> isOceanCell (u8_get out (index w x (y + 1)))))"

definition shoreMark :: "nat \<Rightarrow> nat \<Rightarrow> u8 list \<Rightarrow> cell \<Rightarrow> bool" where
  "shoreMark w h out c = (case c of (x, y) \<Rightarrow>
      isLandCell (u8_get out (index w x y)) \<and> adjOcean w h out x y)"

definition same_water :: "u8 list \<Rightarrow> u8 list \<Rightarrow> bool" where
  "same_water a b =
     (length b = length a
      \<and> (\<forall>j<length a. b ! j AND 128 = a ! j AND 128 \<and> b ! j AND 32 = a ! j AND 32))"

definition same_flags :: "u8 list \<Rightarrow> u8 list \<Rightarrow> bool" where
  "same_flags a b = (length b = length a \<and> (\<forall>j<length a. b ! j AND 224 = a ! j AND 224))"

text \<open>The passes that follow the flood fill, and the product \<^verbatim>\<open>getMapData\<close> assembles.\<close>

definition finishTerrain :: "GeneratedParams \<Rightarrow> Loader \<Rightarrow> nat \<Rightarrow> nat \<Rightarrow> u8 list \<Rightarrow> u8 list" where
  "finishTerrain store this w h out =
     ridgeAccentPass store this w h (smoothMagnitude store this w h (markShoreline w h out))"

definition mkMapData :: "GeneratedParams \<Rightarrow> u8 list \<Rightarrow> u8 list \<Rightarrow> u8 list \<Rightarrow> MapData" where
  "mkMapData p bin1 bin4 bin16 =
     \<lparr> mapBin = bin1, map4xBin = bin4, map16xBin = bin16,
       manifest = \<lparr> name = ''Generated'',
                    map_1x = \<lparr> m_width = width p, m_height = height p,
                               num_land_tiles = countLand bin1 \<rparr>,
                    map_4x = \<lparr> m_width = width4x p, m_height = height4x p,
                               num_land_tiles = countLand bin4 \<rparr>,
                    map_16x = \<lparr> m_width = width16x p, m_height = height16x p,
                                num_land_tiles = countLand bin16 \<rparr>,
                    nations = generateNations [] \<rparr>,
       webpPath = placeholderThumbnail \<rparr>"

section \<open>Properties of the permutation table\<close>

lemma length_shuffle: "length (shuffle k s p) = length p"
  by (induction k arbitrary: s p) (simp_all add: Let_def)

lemma mset_shuffle: "k < length p \<Longrightarrow> mset (shuffle k s p) = mset p"
proof (induction k arbitrary: s p)
  case 0
  then show ?case by simp
next
  case (Suc k)
  let ?j = "unat (xorshift32 s) mod (Suc k + 1)"
  have "?j < Suc k + 1" by (rule mod_less_divisor) simp
  then have j: "?j < length p" using Suc.prems by linarith
  have "mset (p[Suc k := p ! ?j, ?j := p ! Suc k]) = mset p"
    using Suc.prems j by (simp add: mset_swap)
  moreover have "k < length (p[Suc k := p ! ?j, ?j := p ! Suc k])"
    using Suc.prems by simp
  ultimately show ?case
    using Suc.IH [of "p[Suc k := p ! ?j, ?j := p ! Suc k]" "xorshift32 s"]
    by (simp add: Let_def)
qed

lemma shuffle_above: "k < n \<Longrightarrow> n < length p \<Longrightarrow> shuffle k s p ! n = p ! n"
proof (induction k arbitrary: s p)
  case 0
  then show ?case by simp
next
  case (Suc k)
  let ?j = "unat (xorshift32 s) mod (Suc k + 1)"
  have "?j < Suc k + 1" by (rule mod_less_divisor) simp
  then have j: "?j \<noteq> n" using Suc.prems by linarith
  show ?case
    using Suc.prems j Suc.IH [of "p[Suc k := p ! ?j, ?j := p ! Suc k]" "xorshift32 s"]
    by (simp add: Let_def)
qed

section \<open>Properties of the terrain pipeline\<close>

subsection \<open>Typed-array access\<close>

lemma length_u8_set [simp]: "length (u8_set a i v) = length a"
  by (simp add: u8_set_def)

lemma u8_get_in_set: "u8_get a i = Some b \<Longrightarrow> b \<in> set a"
  by (auto simp: u8_get_def split: if_splits)

lemma set_u8_set: "set (u8_set a i v) \<subseteq> insert v (set a)"
  using set_update_subset_insert [of a "nat i" v] by (auto simp: u8_set_def)

lemma length_cells: "length (cells w h) = w * h"
  by (induction h) (simp_all add: cells_def)

subsection \<open>Bytes\<close>

lemma pack_land_bits:
  fixes m :: u8
  shows "((push_bit 7 1 OR 0 OR (m AND 31)) AND 255) AND 128 = 128"
    and "((push_bit 7 1 OR 0 OR (m AND 31)) AND 255) AND 32 = 0"
    and "((push_bit 7 1 OR 0 OR (m AND 31)) AND 255) AND 64 = 0"
  by (simp_all add: word_ao_dist and.assoc)

lemma encodeByte_water: "\<not> v > lt \<Longrightarrow> encodeByte lt v = 32"
  by (simp add: encodeByte_def)

lemma encodeByte_land:
  assumes "v > lt"
  shows "encodeByte lt v AND 128 = 128" and "encodeByte lt v AND 32 = 0"
    and "encodeByte lt v AND 64 = 0"
  unfolding encodeByte_def Let_def using assms
  by (simp_all only: if_True pack_land_bits)

lemma encodeByte_no_shoreline: "encodeByte lt v AND 64 = 0"
  by (cases "v > lt") (simp_all add: encodeByte_land encodeByte_water)

lemma tile_ok_encodeByte: "tile_ok (encodeByte lt v)"
proof (cases "v > lt")
  case True
  show ?thesis unfolding tile_ok_def encodeByte_land(1,2) [OF True] by simp
next
  case False
  then show ?thesis by (simp add: tile_ok_def encodeByte_water)
qed

lemma tile_ok_not_mask: "tile_ok b \<Longrightarrow> b \<noteq> 0 \<and> b \<noteq> 1"
  by (auto simp: tile_ok_def)

lemma tile_ok_water: "tile_ok b \<Longrightarrow> b AND 128 = 0 \<Longrightarrow> b = 32"
  by (auto simp: tile_ok_def)

lemma tile_ok_shore: "tile_ok b \<Longrightarrow> b AND 128 \<noteq> 0 \<Longrightarrow> tile_ok (b OR 64)"
  by (auto simp: tile_ok_def word_ao_dist)

lemma tile_ok_mag: "tile_ok b \<Longrightarrow> b AND 128 \<noteq> 0 \<Longrightarrow> tile_ok ((b AND NOT 31) OR (x AND 31))"
proof -
  have a: "((b AND NOT 31) OR (x AND 31)) AND 128 = b AND 128"
    by (simp add: word_ao_dist and.assoc)
  have c: "((b AND NOT 31) OR (x AND 31)) AND 32 = b AND 32"
    by (simp add: word_ao_dist and.assoc)
  show "tile_ok b \<Longrightarrow> b AND 128 \<noteq> 0 \<Longrightarrow> tile_ok ((b AND NOT 31) OR (x AND 31))"
    unfolding tile_ok_def a c by auto
qed

subsection \<open>The encoding loop\<close>

lemma fold_octaveStep_calls:
  "snd (fold (octaveStep nz x y) octs (v, c)) = c + length octs"
  by (induction octs arbitrary: v c) (auto simp: octaveStep_def split: prod.splits)

lemma sumOctaves_calls: "snd (sumOctaves nz octs x y c) = c + length octs"
  by (simp add: sumOctaves_def fold_octaveStep_calls)

lemma encodeStep_eq:
  "\<exists>v. encodeStep N nz octs a g lt cl (out, idx, c) =
         (out[idx := encodeByte lt v], Suc idx, c + length octs)"
proof -
  obtain x y where cl: "cl = (x, y)" by (cases cl)
  obtain v0 c' where s: "sumOctaves nz octs (of_int x) (of_int y) c = (v0, c')"
    by (cases "sumOctaves nz octs (of_int x) (of_int y) c")
  have "c' = c + length octs"
    using sumOctaves_calls [of nz octs "of_int x" "of_int y" c] s by simp
  then show ?thesis
    by (auto simp: encodeStep_def cl s Let_def)
qed

lemma fold_encodeStep:
  assumes "fold (encodeStep N nz octs a g lt) cs (out, idx, c) = (out', idx', c')"
    and "\<forall>i<idx. P (out ! i)"
    and "idx + length cs \<le> length out"
    and "\<And>v. P (encodeByte lt v)"
  shows "length out' = length out \<and> idx' = idx + length cs
         \<and> c' = c + length cs * length octs
         \<and> (\<forall>i<idx + length cs. P (out' ! i))"
  using assms
proof (induction cs arbitrary: out idx c)
  case Nil
  then show ?case by simp
next
  case (Cons cl cs)
  obtain v where st: "encodeStep N nz octs a g lt cl (out, idx, c) =
      (out[idx := encodeByte lt v], Suc idx, c + length octs)"
    using encodeStep_eq by blast
  have f: "fold (encodeStep N nz octs a g lt) cs
       (out[idx := encodeByte lt v], Suc idx, c + length octs) = (out', idx', c')"
    using Cons.prems(1) st by simp
  have ok: "\<forall>i<Suc idx. P (out[idx := encodeByte lt v] ! i)"
    using Cons.prems(2,3,4)
    by (auto simp: nth_list_update less_Suc_eq)
  have len: "Suc idx + length cs \<le> length (out[idx := encodeByte lt v])"
    using Cons.prems(3) by simp
  from Cons.IH [OF f ok len Cons.prems(4)] show ?case by simp
qed

lemma encodeField_all:
  assumes "encodeField N store this w h sd lt c = (out, c')"
    and "\<And>v. P (encodeByte lt v)"
  shows "length out = w * h" and "list_all P out"
    and "c' = c + w * h * length (buildOctaves N store)"
proof -
  let ?step = "encodeStep N (simplexNoise N sd) (buildOctaves N store)
      (ampSumOf (buildOctaves N store)) (contrastGamma (effParams store this)) lt"
  obtain o' i' k' where f: "fold ?step (cells w h) (replicate (w * h) 0, 0, c) = (o', i', k')"
    by (cases "fold ?step (cells w h) (replicate (w * h) 0, 0, c)")
  have r: "out = o'" "c' = k'"
    using assms(1) f by (simp_all add: encodeField_def Let_def)
  have "length o' = length (replicate (w * h) (0 :: u8)) \<and> i' = 0 + length (cells w h)
         \<and> k' = c + length (cells w h) * length (buildOctaves N store)
         \<and> (\<forall>i<0 + length (cells w h). P (o' ! i))"
    by (rule fold_encodeStep [OF f]) (simp_all add: length_cells assms(2))
  then show "length out = w * h" and "list_all P out"
    and "c' = c + w * h * length (buildOctaves N store)"
    using r by (simp_all add: length_cells list_all_length)
qed

lemma encodeField_props:
  assumes "encodeField N store this w h sd lt c = (out, c')"
  shows "length out = w * h" and "list_all tile_ok out"
    and "c' = c + w * h * length (buildOctaves N store)"
  using encodeField_all [OF assms, of tile_ok] tile_ok_encodeByte by simp_all

subsection \<open>The pruning pass returns\<close>

text \<open>
  Each step of the search takes one cell from the queue, and every cell it adds is
  marked in \<^verbatim>\<open>visited\<close> first; as \<^verbatim>\<open>visited\<close> is as long as the grid, the marks
  and the queue together shrink.
\<close>

lemma unmarked_mark:
  "i < length v \<Longrightarrow> v ! i \<noteq> 1 \<Longrightarrow> Suc (unmarked (v[i := 1])) = unmarked v"
proof (induction v arbitrary: i)
  case Nil
  then show ?case by simp
next
  case (Cons a v)
  then show ?case by (cases i) (auto simp: unmarked_def)
qed

lemma bfsVisit_measure:
  assumes "length visited = length grid"
    and "bfsVisit grid w h target c d (visited, q) = (visited', q')"
  shows "length visited' = length grid
         \<and> 2 * unmarked visited' + length q' \<le> 2 * unmarked visited + length q"
proof -
  obtain cx cy dx dy where c: "c = (cx, cy)" and d: "d = (dx, dy)"
    by (cases c, cases d) auto
  let ?ni = "index w (cx + dx) (cy + dy)"
  show ?thesis
  proof (cases "\<not> (cx + dx < 0 \<or> cy + dy < 0 \<or> cx + dx \<ge> int w \<or> cy + dy \<ge> int h)
      \<and> u8_get visited ?ni \<noteq> Some 1 \<and> u8_get grid ?ni = Some target")
    case True
    then have r: "0 \<le> ?ni" "?ni < int (length grid)"
      by (auto simp: u8_get_def split: if_splits)
    then have n: "nat ?ni < length visited" using assms(1) by simp
    have "visited ! nat ?ni \<noteq> 1" using True r assms(1) by (simp add: u8_get_def)
    then have "Suc (unmarked (visited[nat ?ni := 1])) = unmarked visited"
      using n by (intro unmarked_mark)
    moreover have "visited' = visited[nat ?ni := 1]" "q' = q @ [(cx + dx, cy + dy)]"
      using assms True r by (auto simp: bfsVisit_def c d Let_def u8_set_def)
    ultimately show ?thesis using assms(1) by simp
  next
    case False
    then have "visited' = visited" "q' = q"
      using assms(2) by (auto simp: bfsVisit_def c d Let_def split: if_splits)
    then show ?thesis using assms(1) by simp
  qed
qed

lemma fold_bfsVisit_measure:
  assumes "length visited = length grid"
    and "fold (bfsVisit grid w h target c) ds (visited, q) = (visited', q')"
  shows "length visited' = length grid
         \<and> 2 * unmarked visited' + length q' \<le> 2 * unmarked visited + length q"
  using assms
proof (induction ds arbitrary: visited q)
  case Nil
  then show ?case by simp
next
  case (Cons d ds)
  obtain v1 q1 where s: "bfsVisit grid w h target c d (visited, q) = (v1, q1)"
    by (cases "bfsVisit grid w h target c d (visited, q)")
  have m: "length v1 = length grid
         \<and> 2 * unmarked v1 + length q1 \<le> 2 * unmarked visited + length q"
    using Cons.prems(1) s by (rule bfsVisit_measure)
  have "fold (bfsVisit grid w h target c) ds (v1, q1) = (visited', q')"
    using Cons.prems(2) s by simp
  with m Cons.IH [of v1 q1] show ?case by fastforce
qed

lemma bfsLoop_returns:
  "length visited = length grid \<Longrightarrow>
   \<exists>v' sz' f'. bfsLoop grid w h target visited q found sz = Some (v', sz', f')
      \<and> length v' = length grid"
proof (induction "2 * unmarked visited + length q" arbitrary: visited q found sz
    rule: less_induct)
  case less
  show ?case
  proof (cases q)
    case Nil
    then show ?thesis using less.prems by (simp add: bfsLoop.simps)
  next
    case (Cons c rest)
    obtain v1 q1 where f: "fold (bfsVisit grid w h target c) dirs (visited, rest) = (v1, q1)"
      by (cases "fold (bfsVisit grid w h target c) dirs (visited, rest)")
    have m: "length v1 = length grid
         \<and> 2 * unmarked v1 + length q1 \<le> 2 * unmarked visited + length rest"
      using less.prems f by (rule fold_bfsVisit_measure)
    then have "2 * unmarked v1 + length q1 < 2 * unmarked visited + length q"
      using Cons by simp
    from less.hyps [OF this, of "found @ [c]" "Suc sz"] m
    obtain v' sz' f' where
      "bfsLoop grid w h target v1 q1 (found @ [c]) (Suc sz) = Some (v', sz', f')"
      "length v' = length grid"
      by auto
    moreover have "bfsLoop grid w h target visited q found sz
        = bfsLoop grid w h target v1 q1 (found @ [c]) (Suc sz)"
      by (subst bfsLoop.simps) (simp add: Cons f)
    ultimately show ?thesis by simp
  qed
qed

lemma bfs_returns:
  assumes "length visited = length grid"
  shows "\<exists>v' sz f. bfs grid w h visited sx sy target = Some (v', sz, f)
      \<and> length v' = length grid"
  unfolding bfs_def by (rule bfsLoop_returns) (simp add: assms)

lemma length_fill: "length (fold (\<lambda>(cx, cy) g. u8_set g (index w cx cy) fill) cs grid) = length grid"
  by (induction cs arbitrary: grid) (auto split: prod.splits)

lemma regionScan_returns:
  "length visited = length grid \<Longrightarrow>
   \<exists>g' v'. regionScan w h target fill m cs (grid, visited) = Some (g', v')
      \<and> length g' = length grid \<and> length v' = length grid"
proof (induction cs arbitrary: grid visited)
  case Nil
  then show ?case by simp
next
  case (Cons cl cs)
  obtain x y where cl: "cl = (x, y)" by (cases cl)
  show ?case
  proof (cases "u8_get visited (index w x y) = Some 0 \<and> u8_get grid (index w x y) = Some target")
    case True
    obtain v1 sz f where b: "bfs grid w h visited x y target = Some (v1, sz, f)"
        "length v1 = length grid"
      using bfs_returns [OF Cons.prems] by blast
    let ?g1 = "if int sz < m then fold (\<lambda>(cx, cy) g. u8_set g (index w cx cy) fill) f grid
               else grid"
    have l: "length v1 = length ?g1" using b(2) by (simp add: length_fill)
    from Cons.IH [OF l] obtain g' v' where
      "regionScan w h target fill m cs (?g1, v1) = Some (g', v')"
      "length g' = length ?g1" "length v' = length ?g1"
      by blast
    then show ?thesis using True b by (simp add: cl length_fill)
  next
    case False
    then show ?thesis using Cons.IH [OF Cons.prems] by (auto simp: cl)
  qed
qed

lemma removeSmallRegions_returns:
  "\<exists>g'. removeSmallRegions grid w h minLandSize minWaterSize = Some g'
      \<and> length g' = length grid"
proof -
  obtain g1 v1 where a: "regionScan w h 1 0 minLandSize (cells w h)
        (grid, replicate (length grid) 0) = Some (g1, v1)"
      "length g1 = length grid" "length v1 = length grid"
    using regionScan_returns [of "replicate (length grid) 0" grid w h 1 0 minLandSize "cells w h"]
    by auto
  have "length (map (\<lambda>_. 0 :: u8) v1) = length g1" using a by simp
  from regionScan_returns [OF this, of w h 0 1 minWaterSize "cells w h"]
  obtain g2 v2 where "regionScan w h 0 1 minWaterSize (cells w h) (g1, map (\<lambda>_. 0) v1)
      = Some (g2, v2)" "length g2 = length g1"
    by blast
  then show ?thesis using a by (simp add: removeSmallRegions_def)
qed

subsection \<open>Pruning never fires on a packed buffer\<close>

lemma regionScan_no_target:
  "\<forall>b\<in>set grid. b \<noteq> target \<Longrightarrow>
   regionScan w h target fill m cs (grid, visited) = Some (grid, visited)"
proof (induction cs)
  case Nil
  then show ?case by simp
next
  case (Cons cl cs)
  obtain x y where cl: "cl = (x, y)" by (cases cl)
  have "u8_get grid (index w x y) \<noteq> Some target"
    using Cons.prems u8_get_in_set by blast
  then show ?case using Cons by (simp add: cl)
qed

lemma removeSmallRegions_packed:
  assumes "\<forall>b\<in>set grid. b \<noteq> 0 \<and> b \<noteq> 1"
  shows "removeSmallRegions grid w h minLandSize minWaterSize = Some grid"
proof -
  have "\<forall>b\<in>set grid. b \<noteq> 1" and "\<forall>b\<in>set grid. b \<noteq> 0"
    using assms by auto
  then show ?thesis
    by (simp add: removeSmallRegions_def regionScan_no_target)
qed

subsection \<open>The flood fill returns\<close>

lemma unvisited_mark:
  "i < length v \<Longrightarrow> v ! i = 0 \<Longrightarrow> Suc (unvisited (v[i := 1])) = unvisited v"
proof (induction v arbitrary: i)
  case Nil
  then show ?case by simp
next
  case (Cons a v)
  then show ?case by (cases i) (auto simp: unvisited_def)
qed

lemma index_inBounds:
  assumes "inBounds w h x y"
  shows "0 \<le> index w x y \<and> index w x y < int (w * h)"
proof -
  have x: "0 \<le> x" "x < int w" and y: "0 \<le> y" "y + 1 \<le> int h"
    using assms by (auto simp: inBounds_def)
  have "(y + 1) * int w \<le> int h * int w"
    using y by (intro mult_right_mono) auto
  then have "y * int w + x < int h * int w"
    using x by (simp add: algebra_simps)
  moreover have "0 \<le> y * int w" using y by simp
  ultimately show ?thesis using x by (simp add: index_def mult.commute)
qed

lemma qweight_append: "qweight w n (q @ p) = qweight w n q + qweight w n p"
  by (simp add: qweight_def)

lemma qweight_inBounds:
  "\<forall>(x, y)\<in>set p. inBounds w h x y \<Longrightarrow> qweight w (w * h) p = length p"
proof (induction p)
  case Nil
  then show ?case by (simp add: qweight_def)
next
  case (Cons c p)
  obtain x y where c: "c = (x, y)" by (cases c)
  have "inBounds w h x y" using Cons.prems c by simp
  then have "0 \<le> index w x y \<and> index w x y < int (w * h)" by (rule index_inBounds)
  moreover have "qweight w (w * h) p = length p" using Cons by simp
  ultimately show ?case by (simp add: qweight_def c)
qed

lemma qweight_Cons_pos: "qweight w n (c # q) > qweight w n q"
  by (cases c) (simp add: qweight_def)

lemma flood_rel_refl: "flood_rel a a"
  by (simp add: flood_rel_def)

lemma flood_rel_trans: "flood_rel a b \<Longrightarrow> flood_rel b c \<Longrightarrow> flood_rel a c"
  by (auto simp: flood_rel_def)

lemma flood_rel_write:
  assumes "\<not> isLandCell (u8_get out ci)" and "i < length out"
  shows "flood_rel (out ! i) (u8_set out ci (bits (u8_get out ci) OR push_bit 5 1) ! i)"
proof (cases "0 \<le> ci \<and> ci < int (length out)")
  case True
  then have g: "u8_get out ci = Some (out ! nat ci)" by (simp add: u8_get_def)
  have w: "out ! nat ci AND 128 = 0"
    using assms(1) by (simp add: g isLandCell_def bits_def)
  show ?thesis
    using True w assms(2)
    by (cases "nat ci = i") (simp_all add: u8_set_def g bits_def flood_rel_def)
next
  case False
  then show ?thesis by (auto simp: u8_set_def flood_rel_def)
qed

lemma oceanLoop_returns:
  "length visited = w * h \<Longrightarrow>
   \<exists>r. oceanLoop w h out visited q = Some r \<and> length r = length out
       \<and> (\<forall>i<length out. flood_rel (out ! i) (r ! i))"
proof (induction "5 * unvisited visited + qweight w (w * h) q" arbitrary: out visited q
    rule: less_induct)
  case less
  show ?case
  proof (cases q)
    case Nil
    then show ?thesis by (simp add: oceanLoop.simps flood_rel_refl)
  next
    case (Cons c rest)
    obtain cx cy where c: "c = (cx, cy)" by (cases c)
    let ?ci = "index w cx cy"
    let ?visited' = "u8_set visited ?ci 1"
    have lenv: "length ?visited' = w * h" using less.prems by simp
    have drop: "qweight w (w * h) rest < qweight w (w * h) q"
      using Cons qweight_Cons_pos by simp
    show ?thesis
    proof (cases "truthy (u8_get visited ?ci)")
      case True
      have eq: "oceanLoop w h out visited q = oceanLoop w h out visited rest"
        by (subst oceanLoop.simps) (simp add: Cons c True Let_def)
      have "5 * unvisited visited + qweight w (w * h) rest
          < 5 * unvisited visited + qweight w (w * h) q"
        using drop by simp
      from less.hyps [OF this less.prems] show ?thesis by (simp add: eq)
    next
      case False
      have mark: "5 * unvisited ?visited' + 5 \<le> 5 * unvisited visited
                  \<or> (?visited' = visited \<and> \<not> (0 \<le> ?ci \<and> ?ci < int (w * h)))"
      proof (cases "0 \<le> ?ci \<and> ?ci < int (w * h)")
        case True
        then have "visited ! nat ?ci = 0"
          using False less.prems by (simp add: u8_get_def truthy_def)
        moreover have "nat ?ci < length visited"
          using True less.prems by (simp add: nat_less_iff)
        ultimately have "Suc (unvisited (visited[nat ?ci := 1])) = unvisited visited"
          by (intro unvisited_mark)
        then show ?thesis using True less.prems by (simp add: u8_set_def)
      next
        case False
        then show ?thesis using less.prems by (auto simp: u8_set_def)
      qed
      have qc: "qweight w (w * h) q = qweight w (w * h) rest
                 + (if 0 \<le> ?ci \<and> ?ci < int (w * h) then 1 else 5)"
        by (simp add: Cons c qweight_def)
      show ?thesis
      proof (cases "isLandCell (u8_get out ?ci)")
        case True
        have eq: "oceanLoop w h out visited q = oceanLoop w h out ?visited' rest"
          by (subst oceanLoop.simps) (simp add: Cons c False True Let_def)
        have "5 * unvisited ?visited' + qweight w (w * h) rest
            < 5 * unvisited visited + qweight w (w * h) q"
          using mark qc by auto
        from less.hyps [OF this lenv] show ?thesis by (simp add: eq)
      next
        case water: False
        let ?out' = "u8_set out ?ci (bits (u8_get out ?ci) OR push_bit 5 1)"
        let ?pushed = "filter (\<lambda>(nx, ny). inBounds w h nx ny
                                 \<and> \<not> truthy (u8_get ?visited' (index w nx ny))
                                 \<and> \<not> isLandCell (u8_get ?out' (index w nx ny)))
                         (map (\<lambda>(dx, dy). (cx + dx, cy + dy)) dirs)"
        have eq: "oceanLoop w h out visited q = oceanLoop w h ?out' ?visited' (rest @ ?pushed)"
          by (subst oceanLoop.simps) (simp add: Cons c False water Let_def)
        have "length ?pushed \<le> length (map (\<lambda>(dx, dy). (cx + dx, cy + dy)) dirs)"
          by (rule length_filter_le)
        then have p4: "length ?pushed \<le> 4" by (simp add: dirs_def)
        have "\<forall>(x, y)\<in>set ?pushed. inBounds w h x y" by auto
        then have pw: "qweight w (w * h) ?pushed = length ?pushed"
          by (rule qweight_inBounds)
        have "5 * unvisited ?visited' + qweight w (w * h) (rest @ ?pushed)
            < 5 * unvisited visited + qweight w (w * h) q"
          using mark qc p4 pw by (auto simp: qweight_append)
        from less.hyps [OF this lenv]
        obtain r where r: "oceanLoop w h ?out' ?visited' (rest @ ?pushed) = Some r"
            "length r = length ?out'" "\<forall>i<length ?out'. flood_rel (?out' ! i) (r ! i)"
          by blast
        have "\<forall>i<length out. flood_rel (out ! i) (r ! i)"
        proof (intro allI impI)
          fix i assume i: "i < length out"
          have "flood_rel (out ! i) (?out' ! i)"
            using water i by (rule flood_rel_write)
          moreover have "flood_rel (?out' ! i) (r ! i)" using r(3) i by simp
          ultimately show "flood_rel (out ! i) (r ! i)" by (rule flood_rel_trans)
        qed
        then show ?thesis using r by (simp add: eq)
      qed
    qed
  qed
qed

lemma floodOcean_returns:
  "\<exists>r. floodOcean w h out = Some r \<and> length r = length out
       \<and> (\<forall>i<length out. flood_rel (out ! i) (r ! i))"
  unfolding floodOcean_def by (rule oceanLoop_returns) simp

lemma floodOcean_packed:
  assumes "list_all tile_ok out"
  shows "floodOcean w h out = Some out"
proof -
  obtain r where r: "floodOcean w h out = Some r" "length r = length out"
      "\<forall>i<length out. flood_rel (out ! i) (r ! i)"
    using floodOcean_returns by blast
  have "r = out"
  proof (rule nth_equalityI)
    show "length r = length out" by (rule r(2))
  next
    fix i assume "i < length r"
    then have i: "i < length out" using r(2) by simp
    then have "tile_ok (out ! i)" using assms by (simp add: list_all_length)
    then have "out ! i AND 128 = 0 \<Longrightarrow> out ! i = 32" by (rule tile_ok_water)
    moreover have "flood_rel (out ! i) (r ! i)" using r(3) i by simp
    ultimately show "r ! i = out ! i" by (auto simp: flood_rel_def)
  qed
  then show ?thesis using r(1) by simp
qed

subsection \<open>Shoreline, smoothing and ridge accent keep the tile invariant\<close>

lemma list_all_u8_set: "list_all P a \<Longrightarrow> P v \<Longrightarrow> list_all P (u8_set a i v)"
  using set_u8_set [of a i v] by (auto simp: list_all_iff)

lemma isLandCell_Some:
  assumes "isLandCell (u8_get a i)"
  obtains b where "u8_get a i = Some b" and "b AND 128 \<noteq> 0" and "b \<in> set a"
proof (cases "u8_get a i")
  case None
  then show ?thesis using assms by (simp add: isLandCell_def bits_def)
next
  case (Some b)
  then show ?thesis using assms that u8_get_in_set [of a i b]
    by (simp add: isLandCell_def bits_def)
qed

lemma shoreStep_ok:
  assumes "list_all tile_ok out"
  shows "list_all tile_ok (shoreStep w h c out) \<and> length (shoreStep w h c out) = length out"
proof -
  obtain x y where c: "c = (x, y)" by (cases c)
  show ?thesis
  proof (cases "isLandCell (u8_get out (index w x y))")
    case True
    then obtain b where b: "u8_get out (index w x y) = Some b" "b AND 128 \<noteq> 0" "b \<in> set out"
      by (rule isLandCell_Some)
    have "tile_ok b" using assms b(3) by (simp add: list_all_iff)
    then have "tile_ok (b OR 64)" using b(2) by (rule tile_ok_shore)
    then have "list_all tile_ok (u8_set out (index w x y) (b OR 64))"
      using assms by (intro list_all_u8_set)
    then show ?thesis using assms
      by (simp add: shoreStep_def c Let_def b(1) bits_def)
  next
    case False
    then show ?thesis using assms by (simp add: shoreStep_def c)
  qed
qed

lemma fold_invariant:
  assumes "P s" and "\<And>c t. P t \<Longrightarrow> P (f c t)"
  shows "P (fold f cs s)"
  using assms(1)
proof (induction cs arbitrary: s)
  case Nil
  then show ?case by simp
next
  case (Cons c cs)
  then show ?case using assms(2) by simp
qed

lemma markShoreline_ok:
  assumes "list_all tile_ok out"
  shows "list_all tile_ok (markShoreline w h out) \<and> length (markShoreline w h out) = length out"
  unfolding markShoreline_def
proof (rule fold_invariant [where P = "\<lambda>t. list_all tile_ok t \<and> length t = length out"])
  show "list_all tile_ok out \<and> length out = length out" using assms by simp
next
  fix c t assume "list_all tile_ok t \<and> length t = length out"
  then show "list_all tile_ok (shoreStep w h c t) \<and> length (shoreStep w h c t) = length out"
    using shoreStep_ok [of t w h c] by simp
qed

lemma mag_inv_refl: "list_all tile_ok out \<Longrightarrow> mag_inv out out"
  by (simp add: mag_inv_def)

lemma mag_keeps_land: "(((b :: u8) AND NOT 31) OR (x AND 31)) AND 128 = b AND 128"
  by (simp add: word_ao_dist and.assoc)

lemma mag_write:
  assumes "mag_inv copy out" and "bits (u8_get copy i) AND 128 \<noteq> 0"
  shows "mag_inv copy (u8_set out i ((bits (u8_get out i) AND NOT 31) OR (x AND 31)))"
proof -
  have r: "0 \<le> i" "i < int (length copy)"
    using assms(2) by (auto simp: u8_get_def bits_def split: if_splits)
  have len: "length out = length copy" using assms(1) by (simp add: mag_inv_def)
  let ?b = "out ! nat i"
  define v where "v = (?b AND NOT 31) OR (x AND 31)"
  have g: "bits (u8_get out i) = ?b" using r len by (simp add: u8_get_def bits_def)
  have "copy ! nat i AND 128 \<noteq> 0" using assms(2) r by (simp add: u8_get_def bits_def)
  moreover have "?b AND 128 = copy ! nat i AND 128"
    using assms(1) r by (simp add: mag_inv_def)
  ultimately have land: "?b AND 128 \<noteq> 0" by simp
  have "tile_ok ?b" using assms(1) r len by (simp add: mag_inv_def list_all_length)
  then have ok: "tile_ok v" unfolding v_def using land by (rule tile_ok_mag)
  have keep: "v AND 128 = ?b AND 128" unfolding v_def by (rule mag_keeps_land)
  have all: "list_all tile_ok (u8_set out i v)"
    using assms(1) ok by (intro list_all_u8_set) (simp add: mag_inv_def)
  have "\<forall>j<length copy. u8_set out i v ! j AND 128 = copy ! j AND 128"
  proof (intro allI impI)
    fix j assume j: "j < length copy"
    have c: "out ! j AND 128 = copy ! j AND 128" using assms(1) j by (simp add: mag_inv_def)
    show "u8_set out i v ! j AND 128 = copy ! j AND 128"
    proof (cases "j = nat i")
      case True
      then show ?thesis using r len c j keep by (simp add: u8_set_def)
    next
      case False
      then show ?thesis using c by (simp add: u8_set_def)
    qed
  qed
  then have "mag_inv copy (u8_set out i v)" using all len by (simp add: mag_inv_def)
  then show ?thesis unfolding v_def g .
qed

lemma smoothStep_inv:
  assumes "mag_inv copy out"
  shows "mag_inv copy (smoothStep w h copy r c out)"
proof -
  obtain x y where c: "c = (x, y)" by (cases c)
  show ?thesis
    using assms mag_write [OF assms, of "index w x y"
        "of_nat (min 31 (max 0 (windowAvg w h copy r x y)))"]
    by (simp add: smoothStep_def c Let_def)
qed

lemma ridgeStep_inv:
  assumes "mag_inv copy out"
  shows "mag_inv copy (ridgeStep w h copy c out)"
proof -
  obtain x y where c: "c = (x, y)" by (cases c)
  show ?thesis
    using assms mag_write [OF assms, of "index w x y"
        "of_nat (min 31 (unat (bits (u8_get copy (index w x y)) AND 31) + 2))"]
    by (simp add: ridgeStep_def c Let_def)
qed

lemma smoothMagnitude_ok:
  assumes "list_all tile_ok out"
  shows "list_all tile_ok (smoothMagnitude store this w h out)
         \<and> length (smoothMagnitude store this w h out) = length out"
proof -
  have "mag_inv out (smoothMagnitude store this w h out)"
    unfolding smoothMagnitude_def Let_def
    by (rule fold_invariant [where P = "mag_inv out"])
       (simp_all add: mag_inv_refl assms smoothStep_inv)
  then show ?thesis by (simp add: mag_inv_def)
qed

lemma ridgeAccentPass_ok:
  assumes "list_all tile_ok out"
  shows "list_all tile_ok (ridgeAccentPass store this w h out)
         \<and> length (ridgeAccentPass store this w h out) = length out"
proof (cases "ridgeAccent (effParams store this)")
  case True
  have "mag_inv out (fold (ridgeStep w h out) (cells w h) out)"
    by (rule fold_invariant [where P = "mag_inv out"])
       (simp_all add: mag_inv_refl assms ridgeStep_inv)
  then show ?thesis using True by (simp add: ridgeAccentPass_def mag_inv_def)
next
  case False
  then show ?thesis using assms by (simp add: ridgeAccentPass_def)
qed

subsection \<open>What \<open>generateTerrainBin\<close> computes\<close>

lemma finishTerrain_ok:
  assumes "list_all tile_ok out"
  shows "list_all tile_ok (finishTerrain store this w h out)"
    and "length (finishTerrain store this w h out) = length out"
  using assms markShoreline_ok [of out w h]
    smoothMagnitude_ok [of "markShoreline w h out" store this w h]
    ridgeAccentPass_ok [of "smoothMagnitude store this w h (markShoreline w h out)" store this w h]
  by (simp_all add: finishTerrain_def)

lemma generateTerrainBin_eq:
  "generateTerrainBin N store this w h sd lt c =
     Some (finishTerrain store this w h (fst (encodeField N store this w h sd lt c)),
           snd (encodeField N store this w h sd lt c))"
proof -
  obtain out0 c' where e: "encodeField N store this w h sd lt c = (out0, c')"
    by (cases "encodeField N store this w h sd lt c")
  have ok: "list_all tile_ok out0" using e by (rule encodeField_props)
  then have "\<forall>b\<in>set out0. b \<noteq> 0 \<and> b \<noteq> 1"
    using tile_ok_not_mask by (auto simp: list_all_iff)
  then have p: "removeSmallRegions out0 w h (minLandRegionSize store) (minWaterRegionSize store)
      = Some out0"
    by (rule removeSmallRegions_packed)
  have f: "floodOcean w h out0 = Some out0" using ok by (rule floodOcean_packed)
  show ?thesis by (simp add: generateTerrainBin_def e p f finishTerrain_def)
qed

lemma generateTerrainBin_props:
  assumes "generateTerrainBin N store this w h sd lt c = Some (buf, c')"
  shows "length buf = w * h" and "list_all tile_ok buf"
    and "c' = c + w * h * length (buildOctaves N store)"
proof -
  obtain out0 k where e: "encodeField N store this w h sd lt c = (out0, k)"
    by (cases "encodeField N store this w h sd lt c")
  have b: "buf = finishTerrain store this w h out0" and k: "c' = k"
    using assms by (simp_all add: generateTerrainBin_eq e)
  show "length buf = w * h" and "list_all tile_ok buf"
    and "c' = c + w * h * length (buildOctaves N store)"
    using encodeField_props [OF e] finishTerrain_ok [of out0 store this w h] b k
    by simp_all
qed

subsection \<open>Which inputs the buffer depends on\<close>






lemma generateTerrainBin_cong:
  assumes "contrastGamma (effParams store t1) = contrastGamma (effParams store t2)"
    and "smoothingRadius (effParams store t1) = smoothingRadius (effParams store t2)"
    and "ridgeAccent (effParams store t1) = ridgeAccent (effParams store t2)"
  shows "generateTerrainBin N store t1 w h sd lt c = generateTerrainBin N store t2 w h sd lt c"
  unfolding generateTerrainBin_def encodeField_def smoothMagnitude_def ridgeAccentPass_def
    assms by (rule refl)

lemma generateTerrainBin_returns:
  "\<exists>buf k. generateTerrainBin N store this w h sd lt c = Some (buf, k)"
  by (simp add: generateTerrainBin_eq)

lemma countLand_packed: "list_all tile_ok buf \<Longrightarrow> countLand buf = 0"
proof -
  have "fold (\<lambda>b c. c + (if b = 1 then 1 else 0)) buf k = k" if "list_all tile_ok buf" for k :: nat
    using that
  proof (induction buf arbitrary: k)
    case Nil
    then show ?case by simp
  next
    case (Cons b buf)
    then have "b \<noteq> 1" using tile_ok_not_mask [of b] by simp
    then show ?case using Cons by simp
  qed
  then show "list_all tile_ok buf \<Longrightarrow> countLand buf = 0" by (simp add: countLand_def)
qed


lemma generateTerrainBin_water_is_ocean:
  assumes "generateTerrainBin N store this w h sd lt c = Some (buf, c')"
    and "i < length buf" and "\<not> isLand (buf ! i)"
  shows "buf ! i = 32" and "isOcean (buf ! i)"
proof -
  have "tile_ok (buf ! i)"
    using generateTerrainBin_props(2) [OF assms(1)] assms(2) by (simp add: list_all_length)
  then show "buf ! i = 32" using assms(3) by (simp add: tile_ok_def isLand_def)
  then show "isOcean (buf ! i)" by (simp add: isOcean_def)
qed

lemma tile_ok_bits:
  assumes "tile_ok b"
  shows "\<not> (isLand b \<and> isOcean b) \<and> (isShoreline b \<longrightarrow> isLand b)
         \<and> (\<not> isLand b \<longrightarrow> magnitude b = 0) \<and> magnitude b \<le> 31"
proof -
  have "unat (b AND 31) \<le> unat (31 :: u8)"
    by (rule word_and_le1 [THEN word_le_nat_alt [THEN iffD1]])
  then have m: "magnitude b \<le> 31" by (simp add: magnitude_def)
  show ?thesis
  proof (cases "b = 32")
    case True
    then show ?thesis using m
      by (simp add: isLand_def isOcean_def isShoreline_def magnitude_def)
  next
    case False
    then have "b AND 128 \<noteq> 0" "b AND 32 = 0" using assms by (auto simp: tile_ok_def)
    then show ?thesis using m by (simp add: isLand_def isOcean_def)
  qed
qed

subsection \<open>The noise engine is built from the seed\<close>

text \<open>
  The tables of \<^verbatim>\<open>Simplex2D\<close> have 256 entries and depend on the seed only modulo
  \<open>2 ^ 32\<close>, and so does the terrain generated with this evaluator.
\<close>

lemma word_of_int_seed: "(word_of_int (sd + 4294967296 * n) :: u32) = word_of_int sd"
  unfolding word_of_int_eq_iff by (simp add: take_bit_eq_mod)

lemma buildPermutation_mod: "buildPermutation (sd + 4294967296 * n) = buildPermutation sd"
  by (simp only: buildPermutation_def word_of_int_seed)

lemma randFloat_mod: "randFloat (sd + 4294967296 * n) = randFloat sd"
  by (simp only: randFloat_def word_of_int_seed)

lemma Simplex2D_new_mod: "Simplex2D_new F (sd + 4294967296 * n) = Simplex2D_new F sd"
proof -
  have "sd + 4294967296 * n + int i * 31 = (sd + int i * 31) + 4294967296 * n" for i
    by simp
  then show ?thesis
    by (simp only: Simplex2D_new_def buildPermutation_mod randFloat_mod)
qed

lemma gradIndex_bound: "gradIndex S i j < 256"
proof -
  let ?b = "perm S ! nat (i mod 256) XOR perm S ! nat (j mod 256)"
  have "unat (?b AND 255) \<le> unat (255 :: u8)"
    by (rule word_and_le1 [THEN word_le_nat_alt [THEN iffD1]])
  then have "unat (?b AND 255) < 256" by simp
  then show ?thesis by (simp only: gradIndex_def Let_def)
qed

lemma Simplex2D_new_tables:
  "length (perm (Simplex2D_new F sd)) = 256 \<and> length (gradX (Simplex2D_new F sd)) = 256
   \<and> length (gradY (Simplex2D_new F sd)) = 256"
  by (simp add: Simplex2D_new_def buildPermutation_def length_shuffle)

lemma randFloat_default: "randFloat 123456789 = 196913179 / 268435455"
  by (simp add: randFloat_def)

lemma generateTerrainBin_simplex_seed:
  "generateTerrainBin (simplexNumerics F pw) store this w h (sd + 4294967296 * n) lt c
     = generateTerrainBin (simplexNumerics F pw) store this w h sd lt c"
  unfolding generateTerrainBin_def encodeField_def simplexNumerics_def
  by (simp add: Simplex2D_new_mod)

subsection \<open>The shoreline bit\<close>

text \<open>
  The shoreline pass decides each cell from the \<^verbatim>\<open>IS_LAND\<close> and \<^verbatim>\<open>OCEAN\<close> bits, which
  it never changes, so the order of the scan does not matter; the magnitude passes keep
  all three flag bits.
\<close>

lemma shoreStep_alt:
  "shoreStep w h c out =
     (if shoreMark w h out c
      then u8_set out (index w (fst c) (snd c)) (bits (u8_get out (index w (fst c) (snd c))) OR 64)
      else out)"
  by (cases c) (simp add: shoreStep_def shoreMark_def adjOcean_def Let_def)

lemma same_water_cells:
  assumes "same_water a b"
  shows "isLandCell (u8_get b i) = isLandCell (u8_get a i)"
    and "isOceanCell (u8_get b i) = isOceanCell (u8_get a i)"
  using assms by (auto simp: same_water_def u8_get_def isLandCell_def isOceanCell_def bits_def)

lemma same_water_mark: "same_water a b \<Longrightarrow> shoreMark w h b c = shoreMark w h a c"
  by (cases c) (simp add: shoreMark_def adjOcean_def same_water_cells)

lemma or64_keeps: "((b :: u8) OR 64) AND 128 = b AND 128" "((b :: u8) OR 64) AND 32 = b AND 32"
  by (simp_all add: word_ao_dist)

lemma shoreStep_nth:
  assumes "j < length out"
  shows "shoreStep w h c out ! j =
     (if shoreMark w h out c \<and> index w (fst c) (snd c) = int j then out ! j OR 64 else out ! j)"
proof (cases "shoreMark w h out c")
  case True
  show ?thesis
  proof (cases "index w (fst c) (snd c) = int j")
    case eq: True
    then show ?thesis using True assms
      by (simp add: shoreStep_alt u8_set_def u8_get_def bits_def)
  next
    case False
    then show ?thesis using True assms
      by (auto simp: shoreStep_alt u8_set_def)
  qed
next
  case False
  then show ?thesis by (simp add: shoreStep_alt)
qed

lemma length_shoreStep: "length (shoreStep w h c out) = length out"
  by (simp add: shoreStep_alt)

lemma shoreStep_same_water:
  assumes "same_water a out"
  shows "same_water a (shoreStep w h c out)"
proof -
  have len: "length out = length a" using assms by (simp add: same_water_def)
  have "\<forall>j<length a. shoreStep w h c out ! j AND 128 = a ! j AND 128
          \<and> shoreStep w h c out ! j AND 32 = a ! j AND 32"
  proof (intro allI impI)
    fix j assume j: "j < length a"
    then have "out ! j AND 128 = a ! j AND 128" "out ! j AND 32 = a ! j AND 32"
      using assms by (simp_all add: same_water_def)
    then show "shoreStep w h c out ! j AND 128 = a ! j AND 128
          \<and> shoreStep w h c out ! j AND 32 = a ! j AND 32"
      using j len by (simp add: shoreStep_nth or64_keeps)
  qed
  then show ?thesis using len by (simp add: same_water_def length_shoreStep)
qed

lemma fold_shoreStep_nth:
  assumes "same_water a out" and "j < length out"
  shows "fold (shoreStep w h) cs out ! j =
     (if \<exists>c\<in>set cs. shoreMark w h a c \<and> index w (fst c) (snd c) = int j
      then out ! j OR 64 else out ! j)"
  using assms
proof (induction cs arbitrary: out)
  case Nil
  then show ?case by simp
next
  case (Cons c cs)
  have sw: "same_water a (shoreStep w h c out)"
    using Cons.prems(1) by (rule shoreStep_same_water)
  have j: "j < length (shoreStep w h c out)"
    using Cons.prems(2) by (simp add: length_shoreStep)
  have m: "shoreMark w h out c = shoreMark w h a c"
    using Cons.prems(1) by (rule same_water_mark)
  show ?case
    using Cons.IH [OF sw j] Cons.prems(2)
    by (auto simp: shoreStep_nth m)
qed


lemma set_cells: "set (cells w h) = (\<lambda>(x, y). (int x, int y)) ` ({0..<w} \<times> {0..<h})"
  by (auto simp: cells_def)

lemma cells_mem:
  "(cx, cy) \<in> set (cells w h) \<longleftrightarrow> 0 \<le> cx \<and> cx < int w \<and> 0 \<le> cy \<and> cy < int h"
proof
  assume "(cx, cy) \<in> set (cells w h)"
  then show "0 \<le> cx \<and> cx < int w \<and> 0 \<le> cy \<and> cy < int h"
    by (auto simp: set_cells)
next
  assume a: "0 \<le> cx \<and> cx < int w \<and> 0 \<le> cy \<and> cy < int h"
  then have "(nat cx, nat cy) \<in> {0..<w} \<times> {0..<h}" by auto
  then have "(\<lambda>(x, y). (int x, int y)) (nat cx, nat cy) \<in> set (cells w h)"
    unfolding set_cells by (rule imageI)
  then show "(cx, cy) \<in> set (cells w h)" using a by simp
qed

lemma index_inj:
  assumes "0 \<le> x" "x < int w" "0 \<le> x'" "x' < int w"
    and "index w x y = index w x' y'"
  shows "x = x' \<and> y = y'"
proof -
  have e: "y * int w + x = y' * int w + x'" using assms(5) by (simp add: index_def)
  have "x = (y * int w + x) mod int w" using assms(1,2) by simp
  also have "\<dots> = (y' * int w + x') mod int w" by (simp only: e)
  also have "\<dots> = x'" using assms(3,4) by simp
  finally have x: "x = x'" .
  have "y = (y * int w + x) div int w" using assms(1,2) by simp
  also have "\<dots> = (y' * int w + x') div int w" by (simp only: e)
  also have "\<dots> = y'" using assms(3,4) by simp
  finally have "y = y'" .
  then show ?thesis using x by simp
qed

lemma mag_keeps_flags: "(((b :: u8) AND NOT 31) OR (x AND 31)) AND 224 = b AND 224"
  by (simp add: word_ao_dist and.assoc)

lemma mag_write_flags:
  assumes "same_flags a out"
  shows "same_flags a (u8_set out i ((bits (u8_get out i) AND NOT 31) OR (x AND 31)))"
proof (cases "0 \<le> i \<and> i < int (length out)")
  case True
  define v where "v = (out ! nat i AND NOT 31) OR (x AND 31)"
  have g: "bits (u8_get out i) = out ! nat i" using True by (simp add: u8_get_def bits_def)
  have keep: "v AND 224 = out ! nat i AND 224" unfolding v_def by (rule mag_keeps_flags)
  have "same_flags a (u8_set out i v)"
    unfolding same_flags_def
  proof (intro conjI allI impI)
    show "length (u8_set out i v) = length a" using assms by (simp add: same_flags_def)
  next
    fix j assume j: "j < length a"
    then have "out ! j AND 224 = a ! j AND 224" using assms by (simp add: same_flags_def)
    then show "u8_set out i v ! j AND 224 = a ! j AND 224"
      using True keep j assms
      by (cases "j = nat i") (simp_all add: u8_set_def same_flags_def)
  qed
  then show ?thesis unfolding v_def g .
next
  case False
  then show ?thesis using assms by (auto simp: u8_set_def)
qed

lemma smoothStep_flags:
  assumes "same_flags a out"
  shows "same_flags a (smoothStep w h copy r c out)"
proof -
  obtain x y where c: "c = (x, y)" by (cases c)
  show ?thesis
    using assms mag_write_flags [OF assms, of "index w x y"
        "of_nat (min 31 (max 0 (windowAvg w h copy r x y)))"]
    by (simp add: smoothStep_def c Let_def)
qed

lemma ridgeStep_flags:
  assumes "same_flags a out"
  shows "same_flags a (ridgeStep w h copy c out)"
proof -
  obtain x y where c: "c = (x, y)" by (cases c)
  show ?thesis
    using assms mag_write_flags [OF assms, of "index w x y"
        "of_nat (min 31 (unat (bits (u8_get copy (index w x y)) AND 31) + 2))"]
    by (simp add: ridgeStep_def c Let_def)
qed

lemma magnitude_passes_flags:
  "same_flags out (ridgeAccentPass store this w h (smoothMagnitude store this w h out))"
proof -
  have s: "same_flags out (smoothMagnitude store this w h out)"
    unfolding smoothMagnitude_def Let_def
    by (rule fold_invariant [where P = "same_flags out"])
       (simp_all add: same_flags_def smoothStep_flags [unfolded same_flags_def])
  show ?thesis
  proof (cases "ridgeAccent (effParams store this)")
    case True
    have "same_flags out (fold (ridgeStep w h (smoothMagnitude store this w h out)) (cells w h)
        (smoothMagnitude store this w h out))"
      by (rule fold_invariant [where P = "same_flags out"]) (simp_all add: s ridgeStep_flags)
    then show ?thesis using True by (simp add: ridgeAccentPass_def)
  next
    case False
    then show ?thesis using s by (simp add: ridgeAccentPass_def)
  qed
qed

lemma flags_decide:
  assumes "(b :: u8) AND 224 = b' AND 224"
  shows "isLand b = isLand b'" and "isOcean b = isOcean b'" and "isShoreline b = isShoreline b'"
proof -
  have "b AND 128 = (b AND 224) AND 128" "b' AND 128 = (b' AND 224) AND 128"
    "b AND 32 = (b AND 224) AND 32" "b' AND 32 = (b' AND 224) AND 32"
    "b AND 64 = (b AND 224) AND 64" "b' AND 64 = (b' AND 224) AND 64"
    by (simp_all add: and.assoc)
  then show "isLand b = isLand b'" and "isOcean b = isOcean b'"
    and "isShoreline b = isShoreline b'"
    using assms by (simp_all add: isLand_def isOcean_def isShoreline_def)
qed


lemma cell_index_lt: "x < w \<Longrightarrow> y < h \<Longrightarrow> y * w + x < w * (h :: nat)"
proof -
  assume x: "x < w" and y: "y < h"
  have "y * w + x < Suc y * w" using x by simp
  also have "\<dots> \<le> h * w" using y by (intro mult_le_mono1) simp
  finally show ?thesis by (simp add: mult.commute)
qed

lemma cell_nat:
  assumes "j < length out"
  shows "isLandCell (u8_get out (int j)) = isLand (out ! j)"
    and "isOceanCell (u8_get out (int j)) = isOcean (out ! j)"
  using assms
  by (simp_all add: u8_get_def isLandCell_def isOceanCell_def bits_def isLand_def isOcean_def)

lemma adjOcean_nat:
  assumes len: "length out = w * h" and x: "x < w" and y: "y < h"
  shows "adjOcean w h out (int x) (int y) \<longleftrightarrow>
      (0 < x \<and> isOcean (out ! (y * w + (x - 1))))
    \<or> (x + 1 < w \<and> isOcean (out ! (y * w + (x + 1))))
    \<or> (0 < y \<and> isOcean (out ! ((y - 1) * w + x)))
    \<or> (y + 1 < h \<and> isOcean (out ! ((y + 1) * w + x)))"
proof -
  have l: "isOceanCell (u8_get out (index w (int x - 1) (int y)))
      = isOcean (out ! (y * w + (x - 1)))" if "0 < x"
  proof -
    have e: "int (x - 1) = int x - 1" using that by linarith
    have i: "index w (int x - 1) (int y) = int (y * w + (x - 1))"
      by (simp only: index_def of_nat_add of_nat_mult e)
    have k: "y * w + (x - 1) < length out"
      using cell_index_lt [of "x - 1" w y h] x y len by simp
    show ?thesis unfolding i by (rule cell_nat(2) [OF k])
  qed
  have r: "isOceanCell (u8_get out (index w (int x + 1) (int y)))
      = isOcean (out ! (y * w + (x + 1)))" if "x + 1 < w"
  proof -
    have i: "index w (int x + 1) (int y) = int (y * w + (x + 1))"
      by (simp add: index_def)
    have k: "y * w + (x + 1) < length out"
      using cell_index_lt [of "x + 1" w y h] that y len by simp
    show ?thesis unfolding i by (rule cell_nat(2) [OF k])
  qed
  have u: "isOceanCell (u8_get out (index w (int x) (int y - 1)))
      = isOcean (out ! ((y - 1) * w + x))" if "0 < y"
  proof -
    have e: "int (y - 1) = int y - 1" using that by linarith
    have i: "index w (int x) (int y - 1) = int ((y - 1) * w + x)"
      by (simp only: index_def of_nat_add of_nat_mult e)
    have k: "(y - 1) * w + x < length out"
      using cell_index_lt [of x w "y - 1" h] x y len by simp
    show ?thesis unfolding i by (rule cell_nat(2) [OF k])
  qed
  have d: "isOceanCell (u8_get out (index w (int x) (int y + 1)))
      = isOcean (out ! ((y + 1) * w + x))" if "y + 1 < h"
  proof -
    have i: "index w (int x) (int y + 1) = int ((y + 1) * w + x)"
      by (simp add: index_def algebra_simps)
    have k: "(y + 1) * w + x < length out"
      using cell_index_lt [of x w "y + 1" h] x that len by simp
    show ?thesis unfolding i by (rule cell_nat(2) [OF k])
  qed
  have c: "(0 < int x) = (0 < x)" "(int x + 1 < int w) = (x + 1 < w)"
    "(0 < int y) = (0 < y)" "(int y + 1 < int h) = (y + 1 < h)"
    by auto
  show ?thesis
    unfolding adjOcean_def c using l r u d by blast
qed

lemma length_markShoreline: "length (markShoreline w h out) = length out"
  unfolding markShoreline_def
  by (rule fold_invariant [where P = "\<lambda>t. length t = length out"])
     (simp_all add: length_shoreStep)

lemma markShoreline_nth:
  assumes len: "length out = w * h" and x: "x < w" and y: "y < h"
  shows "markShoreline w h out ! (y * w + x) =
     (if shoreMark w h out (int x, int y) then out ! (y * w + x) OR 64 else out ! (y * w + x))"
proof -
  let ?j = "y * w + x"
  have j: "?j < length out" using cell_index_lt [OF x y] len by simp
  have idx: "index w (int x) (int y) = int ?j" by (simp add: index_def)
  have "(\<exists>c\<in>set (cells w h). shoreMark w h out c \<and> index w (fst c) (snd c) = int ?j)
      \<longleftrightarrow> shoreMark w h out (int x, int y)"
  proof
    assume "\<exists>c\<in>set (cells w h). shoreMark w h out c \<and> index w (fst c) (snd c) = int ?j"
    then obtain cx cy where c: "(cx, cy) \<in> set (cells w h)" "shoreMark w h out (cx, cy)"
        "index w cx cy = int ?j"
      by auto
    have b: "0 \<le> cx" "cx < int w" using c(1) by (simp_all add: cells_mem)
    have "cx = int x \<and> cy = int y"
      using b x c(3) idx by (intro index_inj [of cx w "int x" cy "int y"]) simp_all
    then show "shoreMark w h out (int x, int y)" using c(2) by simp
  next
    assume m: "shoreMark w h out (int x, int y)"
    have "(int x, int y) \<in> set (cells w h)" using x y by (simp add: cells_mem)
    then show "\<exists>c\<in>set (cells w h). shoreMark w h out c \<and> index w (fst c) (snd c) = int ?j"
      using m idx by force
  qed
  moreover have "same_water out out" by (simp add: same_water_def)
  ultimately show ?thesis
    unfolding markShoreline_def
    using fold_shoreStep_nth [of out out ?j w h "cells w h"] j by simp
qed

lemma markShoreline_other_flags:
  assumes "j < length out"
  shows "isLand (markShoreline w h out ! j) = isLand (out ! j)"
    and "isOcean (markShoreline w h out ! j) = isOcean (out ! j)"
proof -
  have "same_water out out" by (simp add: same_water_def)
  then have "markShoreline w h out ! j = out ! j OR 64 \<or> markShoreline w h out ! j = out ! j"
    unfolding markShoreline_def
    using fold_shoreStep_nth [of out out j w h "cells w h"] assms by auto
  then show "isLand (markShoreline w h out ! j) = isLand (out ! j)"
    and "isOcean (markShoreline w h out ! j) = isOcean (out ! j)"
    by (auto simp: isLand_def isOcean_def or64_keeps)
qed


lemma generateTerrainBin_shoreline_iff:
  assumes g: "generateTerrainBin N store this w h sd lt c = Some (buf, c')"
    and x: "x < w" and y: "y < h"
  shows "isShoreline (buf ! (y * w + x)) \<longleftrightarrow>
      isLand (buf ! (y * w + x))
      \<and> ((0 < x \<and> isOcean (buf ! (y * w + (x - 1))))
        \<or> (x + 1 < w \<and> isOcean (buf ! (y * w + (x + 1))))
        \<or> (0 < y \<and> isOcean (buf ! ((y - 1) * w + x)))
        \<or> (y + 1 < h \<and> isOcean (buf ! ((y + 1) * w + x))))"
proof -
  obtain out0 k where e: "encodeField N store this w h sd lt c = (out0, k)"
    by (cases "encodeField N store this w h sd lt c")
  define out1 where "out1 = markShoreline w h out0"
  have buf: "buf = ridgeAccentPass store this w h (smoothMagnitude store this w h out1)"
    using g by (simp add: generateTerrainBin_eq finishTerrain_def e out1_def)
  have len0: "length out0 = w * h" and ns: "list_all (\<lambda>b. b AND 64 = 0) out0"
    using encodeField_all [OF e, of "\<lambda>b. b AND 64 = 0"] encodeByte_no_shoreline by simp_all
  have len1: "length out1 = w * h" by (simp add: out1_def length_markShoreline len0)
  have sf: "same_flags out1 buf" unfolding buf by (rule magnitude_passes_flags)
  have fl: "isLand (buf ! j) = isLand (out0 ! j)" "isOcean (buf ! j) = isOcean (out0 ! j)"
    "isShoreline (buf ! j) = isShoreline (out1 ! j)" if "j < w * h" for j
  proof -
    have "buf ! j AND 224 = out1 ! j AND 224"
      using sf that len1 by (simp add: same_flags_def)
    then have "isLand (buf ! j) = isLand (out1 ! j)" "isOcean (buf ! j) = isOcean (out1 ! j)"
      "isShoreline (buf ! j) = isShoreline (out1 ! j)"
      by (rule flags_decide)+
    then show "isLand (buf ! j) = isLand (out0 ! j)" "isOcean (buf ! j) = isOcean (out0 ! j)"
      "isShoreline (buf ! j) = isShoreline (out1 ! j)"
      using markShoreline_other_flags [of j out0 w h] that len0 by (simp_all add: out1_def)
  qed
  let ?j = "y * w + x"
  have j: "?j < w * h" using x y by (rule cell_index_lt)
  have clear: "out0 ! ?j AND 64 = 0" using ns j len0 by (simp add: list_all_length)
  have set64: "(b OR 64) AND 64 \<noteq> 0" for b :: u8 by (simp add: word_ao_dist)
  have "isShoreline (out1 ! ?j) \<longleftrightarrow> shoreMark w h out0 (int x, int y)"
    unfolding out1_def markShoreline_nth [OF len0 x y]
    using clear set64 by (simp add: isShoreline_def)
  also have "\<dots> \<longleftrightarrow> isLand (out0 ! ?j) \<and> adjOcean w h out0 (int x) (int y)"
  proof -
    have "index w (int x) (int y) = int ?j" by (simp add: index_def)
    then show ?thesis using cell_nat(1) [of ?j out0] j len0 by (simp add: shoreMark_def)
  qed
  finally have main: "isShoreline (buf ! ?j) \<longleftrightarrow>
      isLand (out0 ! ?j) \<and> adjOcean w h out0 (int x) (int y)"
    using fl(3) [OF j] by simp
  have a0: "isLand (buf ! ?j) = isLand (out0 ! ?j)" using j by (rule fl(1))
  have a1: "isOcean (buf ! (y * w + (x - 1))) = isOcean (out0 ! (y * w + (x - 1)))" if "0 < x"
  proof (rule fl(2))
    show "y * w + (x - 1) < w * h" using cell_index_lt [of "x - 1" w y h] x y by simp
  qed
  have a2: "isOcean (buf ! (y * w + (x + 1))) = isOcean (out0 ! (y * w + (x + 1)))"
    if "x + 1 < w"
    using that y by (intro fl(2) cell_index_lt)
  have a3: "isOcean (buf ! ((y - 1) * w + x)) = isOcean (out0 ! ((y - 1) * w + x))" if "0 < y"
  proof (rule fl(2))
    show "(y - 1) * w + x < w * h" using cell_index_lt [of x w "y - 1" h] x y by simp
  qed
  have a4: "isOcean (buf ! ((y + 1) * w + x)) = isOcean (out0 ! ((y + 1) * w + x))"
    if "y + 1 < h"
    using that x by (intro fl(2) cell_index_lt)
  show ?thesis
    unfolding main adjOcean_nat [OF len0 x y] a0 using a1 a2 a3 a4 by blast
qed

subsection \<open>The loader\<close>

lemma length_buildOctaves: "length (buildOctaves N p) = nat (octaves p)"
  by (simp add: buildOctaves_def)

lemma getMapData_fresh:
  assumes "maps this Generated = None"
  shows "\<exists>b1 c1 b4 c2 b16 c3.
           generateTerrainBin N store this (width (effParams store this))
             (height (effParams store this)) (seed (effParams store this))
             (landThreshold (effParams store this)) k = Some (b1, c1)
         \<and> generateTerrainBin N store this (width4x (effParams store this))
             (height4x (effParams store this)) (seed (effParams store this) + 101)
             (landThreshold (effParams store this)) c1 = Some (b4, c2)
         \<and> generateTerrainBin N store this (width16x (effParams store this))
             (height16x (effParams store this)) (seed (effParams store this) + 202)
             (landThreshold (effParams store this)) c2 = Some (b16, c3)
         \<and> getMapData N store (this, k) Generated
             = Some (Inr (mkMapData (effParams store this) b1 b4 b16),
                     this\<lparr>maps := (maps this)(Generated \<mapsto>
                              mkMapData (effParams store this) b1 b4 b16)\<rparr>,
                     c3)"
proof -
  let ?p = "effParams store this"
  obtain b1 c1 where g1: "generateTerrainBin N store this (width ?p) (height ?p) (seed ?p)
      (landThreshold ?p) k = Some (b1, c1)"
    using generateTerrainBin_returns by blast
  obtain b4 c2 where g2: "generateTerrainBin N store this (width4x ?p) (height4x ?p)
      (seed ?p + 101) (landThreshold ?p) c1 = Some (b4, c2)"
    using generateTerrainBin_returns by blast
  obtain b16 c3 where g3: "generateTerrainBin N store this (width16x ?p) (height16x ?p)
      (seed ?p + 202) (landThreshold ?p) c2 = Some (b16, c3)"
    using generateTerrainBin_returns by blast
  have "getMapData N store (this, k) Generated
      = Some (Inr (mkMapData ?p b1 b4 b16),
              this\<lparr>maps := (maps this)(Generated \<mapsto> mkMapData ?p b1 b4 b16)\<rparr>, c3)"
    by (simp add: assms g1 g2 g3 Let_def mkMapData_def)
  then show ?thesis using g1 g2 g3 by blast
qed

lemma getMapData_cached:
  "maps this Generated = Some d \<Longrightarrow>
   getMapData N store (this, k) Generated = Some (Inr d, this, k)"
  by simp

lemma getMapData_returns:
  "\<exists>d W. getMapData N store (this, k) Generated = Some (Inr d, W)"
proof (cases "maps this Generated")
  case None
  then show ?thesis using getMapData_fresh [of this N store k] by blast
next
  case (Some d)
  then show ?thesis by simp
qed

text \<open>
  A first call on an empty cache evaluates the noise once per octave and cell of each
  of the three grids; the counter records it.
\<close>

lemma getMapData_fresh_calls:
  assumes "maps this Generated = None"
  shows "\<exists>d L. getMapData N store (this, k) Generated
           = Some (Inr d, L,
               k + (width (effParams store this) * height (effParams store this)
                    + width4x (effParams store this) * height4x (effParams store this)
                    + width16x (effParams store this) * height16x (effParams store this))
                   * nat (octaves store))"
proof -
  obtain b1 c1 b4 c2 b16 c3 where
    g1: "generateTerrainBin N store this (width (effParams store this))
             (height (effParams store this)) (seed (effParams store this))
             (landThreshold (effParams store this)) k = Some (b1, c1)"
    and g2: "generateTerrainBin N store this (width4x (effParams store this))
             (height4x (effParams store this)) (seed (effParams store this) + 101)
             (landThreshold (effParams store this)) c1 = Some (b4, c2)"
    and g3: "generateTerrainBin N store this (width16x (effParams store this))
             (height16x (effParams store this)) (seed (effParams store this) + 202)
             (landThreshold (effParams store this)) c2 = Some (b16, c3)"
    and r: "getMapData N store (this, k) Generated
             = Some (Inr (mkMapData (effParams store this) b1 b4 b16),
                     this\<lparr>maps := (maps this)(Generated \<mapsto>
                              mkMapData (effParams store this) b1 b4 b16)\<rparr>,
                     c3)"
    using getMapData_fresh [OF assms, of N store k] by blast
  have "c3 = k + (width (effParams store this) * height (effParams store this)
                    + width4x (effParams store this) * height4x (effParams store this)
                    + width16x (effParams store this) * height16x (effParams store this))
                   * nat (octaves store)"
    using generateTerrainBin_props(3) [OF g1] generateTerrainBin_props(3) [OF g2]
      generateTerrainBin_props(3) [OF g3]
    by (simp add: length_buildOctaves algebra_simps)
  then show ?thesis using r by blast
qed

text \<open>
  The land count of every freshly assembled manifest is 0, whatever the terrain: no
  byte of a returned buffer equals 1.
\<close>

lemma getMapData_fresh_land_tiles:
  assumes "maps this Generated = None"
  shows "\<exists>d W. getMapData N store (this, k) Generated = Some (Inr d, W)
           \<and> num_land_tiles (map_1x (manifest d)) = 0
           \<and> num_land_tiles (map_4x (manifest d)) = 0
           \<and> num_land_tiles (map_16x (manifest d)) = 0"
proof -
  obtain b1 c1 b4 c2 b16 c3 where
    g1: "generateTerrainBin N store this (width (effParams store this))
             (height (effParams store this)) (seed (effParams store this))
             (landThreshold (effParams store this)) k = Some (b1, c1)"
    and g2: "generateTerrainBin N store this (width4x (effParams store this))
             (height4x (effParams store this)) (seed (effParams store this) + 101)
             (landThreshold (effParams store this)) c1 = Some (b4, c2)"
    and g3: "generateTerrainBin N store this (width16x (effParams store this))
             (height16x (effParams store this)) (seed (effParams store this) + 202)
             (landThreshold (effParams store this)) c2 = Some (b16, c3)"
    and r: "getMapData N store (this, k) Generated
             = Some (Inr (mkMapData (effParams store this) b1 b4 b16),
                     this\<lparr>maps := (maps this)(Generated \<mapsto>
                              mkMapData (effParams store this) b1 b4 b16)\<rparr>,
                     c3)"
    using getMapData_fresh [OF assms, of N store k] by blast
  have "countLand b1 = 0" "countLand b4 = 0" "countLand b16 = 0"
    using generateTerrainBin_props(2) [OF g1] generateTerrainBin_props(2) [OF g2]
      generateTerrainBin_props(2) [OF g3]
    by (simp_all add: countLand_packed)
  then show ?thesis using r by (simp add: mkMapData_def)
qed

text \<open>
  On a 0/1 mask, the format its comparisons expect, \<^verbatim>\<open>removeSmallRegions\<close> does
  prune: the one-cell island goes, and so does the one-cell lake. (A grid that is one
  water region below the minimum turns into land as a whole, whatever the minimum for
  land.)
\<close>

lemma removeSmallRegions_on_mask:
  "removeSmallRegions [0, 0, 0, 0, 1, 0, 0, 0, 0] 3 3 2 0 = Some [0, 0, 0, 0, 0, 0, 0, 0, 0]"
  "removeSmallRegions [1, 1, 1, 1, 0, 1, 1, 1, 1] 3 3 0 2 = Some [1, 1, 1, 1, 1, 1, 1, 1, 1]"
  "removeSmallRegions [0] 1 1 2 2 = Some [1]"
  by code_simp+

text \<open>
  On a buffer whose water bytes are 0, the flood fill marks exactly the water reachable
  from the edge.
\<close>

lemma floodOcean_on_unmarked_water:
  "floodOcean 3 3 [0, 0, 128, 128, 0, 128, 128, 128, 0]
     = Some [32, 32, 128, 128, 32, 128, 128, 128, 32]"
  "floodOcean 3 3 [128, 128, 128, 128, 0, 128, 128, 128, 128]
     = Some [128, 128, 128, 128, 0, 128, 128, 128, 128]"
  by code_simp+

section \<open>The properties of the specification, C1 to C10\<close>

text \<open>
  C1. After the pruning pass inside terrain generation every land component should have
  at least \<^verbatim>\<open>minLandRegionSize\<close> cells, and a single one-cell island with
  \<^verbatim>\<open>minLandRegionSize = 2\<close> should end as water. The code does not do this: on the
  packed buffer of the island field the pruning pass returns its input, and the island
  cell (index 4) is still land in the buffer \<^verbatim>\<open>generateTerrainBin\<close> returns.
\<close>

theorem pruning_keeps_one_cell_island:
  "removeSmallRegions [32, 32, 32, 32, 159, 32, 32, 32, 32] 3 3 2 0
     = Some [32, 32, 32, 32, 159, 32, 32, 32, 32]
   \<and> generateTerrainBin islandNumerics exParams (newLoader None) 3 3 7 (1 / 2) 0
     = Some ([32, 32, 32, 32, 223, 32, 32, 32, 32], 9)
   \<and> minLandRegionSize exParams = 2
   \<and> isLand ([32, 32, 32, 32, 223, 32, 32, 32, 32] ! 4)"
proof -
  have "removeSmallRegions [32, 32, 32, 32, 159, 32, 32, 32, 32] 3 3 2 0
     = Some [32, 32, 32, 32, 159, 32, 32, 32, 32]"
    by code_simp
  moreover have "generateTerrainBin islandNumerics exParams (newLoader None) 3 3 7 (1 / 2) 0
     = Some ([32, 32, 32, 32, 223, 32, 32, 32, 32], 9)"
    by code_simp
  ultimately show ?thesis
    by (simp add: exParams_def isLand_def)
qed

text \<open>
  C2. A water cell with the \<^verbatim>\<open>OCEAN\<close> bit should have a 4-connected water path to the
  border. The code does not ensure this: in the lake field the centre cell (index 4) is
  water, its four neighbours (indices 1, 3, 5, 7) are land, and it still carries the
  \<^verbatim>\<open>OCEAN\<close> bit in the returned buffer.
\<close>

theorem enclosed_lake_is_marked_ocean:
  "generateTerrainBin lakeNumerics exParams (newLoader None) 3 3 7 (1 / 2) 0
     = Some ([159, 223, 159, 223, 32, 223, 159, 223, 159], 9)
   \<and> \<not> isLand 32 \<and> isOcean 32 \<and> isLand 223"
proof -
  have "generateTerrainBin lakeNumerics exParams (newLoader None) 3 3 7 (1 / 2) 0
     = Some ([159, 223, 159, 223, 32, 223, 159, 223, 159], 9)"
    by code_simp
  then show ?thesis by (simp add: isLand_def isOcean_def)
qed

text \<open>
  C3. A land cell should carry \<^verbatim>\<open>SHORELINE\<close> only when a neighbour is edge-reachable
  ocean. The code does not ensure this: in the lake field the land cell \<open>(1, 0)\<close>
  (index 1) has the land cells 0 and 2 and the enclosed water cell 4 as its in-bounds
  neighbours, and the returned buffer marks it \<^verbatim>\<open>SHORELINE\<close>.
\<close>

theorem lake_neighbour_is_marked_shoreline:
  "\<exists>buf k. generateTerrainBin lakeNumerics exParams (newLoader None) 3 3 7 (1 / 2) 0
       = Some (buf, k)
     \<and> isLand (buf ! 1) \<and> isShoreline (buf ! 1)
     \<and> isLand (buf ! 0) \<and> isLand (buf ! 2) \<and> \<not> isLand (buf ! 4)
     \<and> isLand (buf ! 3) \<and> isLand (buf ! 5) \<and> isLand (buf ! 7)"
proof -
  have "generateTerrainBin lakeNumerics exParams (newLoader None) 3 3 7 (1 / 2) 0
     = Some ([159, 223, 159, 223, 32, 223, 159, 223, 159], 9)"
    by code_simp
  then show ?thesis by (simp add: isLand_def isShoreline_def)
qed

text \<open>
  C4. The manifest's \<^verbatim>\<open>num_land_tiles\<close> should be the number of cells with
  \<^verbatim>\<open>IS_LAND\<close> set. The code does not compute this: for the lake field the normal
  buffer has 8 land cells and the manifest reports 0, and the two one-cell land buffers
  report 0 as well.
\<close>

theorem manifest_reports_no_land:
  "\<exists>d W. getMapData lakeNumerics exParams (newLoader None, 0) Generated = Some (Inr d, W)
     \<and> mapBin d = [159, 223, 159, 223, 32, 223, 159, 223, 159]
     \<and> length (filter isLand (mapBin d)) = 8
     \<and> num_land_tiles (map_1x (manifest d)) = 0
     \<and> map4xBin d = [159] \<and> num_land_tiles (map_4x (manifest d)) = 0
     \<and> map16xBin d = [159] \<and> num_land_tiles (map_16x (manifest d)) = 0"
proof -
  have "map_option fst (getMapData lakeNumerics exParams (newLoader None, 0) Generated)
      = Some (Inr (mkMapData exParams [159, 223, 159, 223, 32, 223, 159, 223, 159] [159] [159]))"
    by code_simp
  moreover have "countLand [159, 223, 159, 223, 32, 223, 159, 223, 159] = 0"
    "countLand [159] = 0"
    by (simp_all add: countLand_def)
  moreover have "length (filter isLand [159, 223, 159, 223, 32, 223, 159, 223, 159]) = 8"
    by (simp add: isLand_def)
  ultimately show ?thesis
    by (cases "getMapData lakeNumerics exParams (newLoader None, 0) Generated")
       (auto simp: mkMapData_def)
qed

text \<open>
  C5. \<^verbatim>\<open>generateTerrainBin\<close> always returns a buffer of \<open>width * height\<close> bytes, and
  in every cell of it \<^verbatim>\<open>IS_LAND\<close> and \<^verbatim>\<open>OCEAN\<close> are never both set, \<^verbatim>\<open>SHORELINE\<close> is
  set only on land, the magnitude of a water cell is 0, and the magnitude is at most 31.
\<close>

theorem generateTerrainBin_bit_invariants:
  "\<exists>buf c'. generateTerrainBin N store this w h sd lt c = Some (buf, c')
     \<and> length buf = w * h
     \<and> (\<forall>i<length buf.
           \<not> (isLand (buf ! i) \<and> isOcean (buf ! i))
           \<and> (isShoreline (buf ! i) \<longrightarrow> isLand (buf ! i))
           \<and> (\<not> isLand (buf ! i) \<longrightarrow> magnitude (buf ! i) = 0)
           \<and> magnitude (buf ! i) \<le> 31)"
proof -
  obtain buf c' where g: "generateTerrainBin N store this w h sd lt c = Some (buf, c')"
    using generateTerrainBin_returns by blast
  have "length buf = w * h" and ok: "list_all tile_ok buf"
    using generateTerrainBin_props [OF g] by simp_all
  moreover have "\<forall>i<length buf.
           \<not> (isLand (buf ! i) \<and> isOcean (buf ! i))
           \<and> (isShoreline (buf ! i) \<longrightarrow> isLand (buf ! i))
           \<and> (\<not> isLand (buf ! i) \<longrightarrow> magnitude (buf ! i) = 0)
           \<and> magnitude (buf ! i) \<le> 31"
    using ok tile_ok_bits by (simp add: list_all_length)
  ultimately show ?thesis using g by blast
qed


theorem generateTerrainBin_bit_invariants_witness:
  "generateTerrainBin lakeNumerics exParams (newLoader None) 3 3 7 (1 / 2) 0
     = Some ([159, 223, 159, 223, 32, 223, 159, 223, 159], 9)
   \<and> isShoreline 223 \<and> isLand 223 \<and> \<not> isOcean 223 \<and> magnitude 223 \<le> 31
   \<and> \<not> isLand 32 \<and> magnitude 32 = 0"
proof -
  have e: "generateTerrainBin lakeNumerics exParams (newLoader None) 3 3 7 (1 / 2) 0
     = Some ([159, 223, 159, 223, 32, 223, 159, 223, 159], 9)"
    by code_simp
  obtain buf c' where b: "generateTerrainBin lakeNumerics exParams (newLoader None) 3 3 7 (1 / 2) 0
       = Some (buf, c')"
    and inv: "\<forall>i<length buf.
           \<not> (isLand (buf ! i) \<and> isOcean (buf ! i))
           \<and> (isShoreline (buf ! i) \<longrightarrow> isLand (buf ! i))
           \<and> (\<not> isLand (buf ! i) \<longrightarrow> magnitude (buf ! i) = 0)
           \<and> magnitude (buf ! i) \<le> 31"
    using generateTerrainBin_bit_invariants
      [of lakeNumerics exParams "newLoader None" 3 3 7 "1 / 2" 0]
    by blast
  have buf: "buf = [159, 223, 159, 223, 32, 223, 159, 223, 159]" using e b by simp
  have s: "isShoreline (223 :: u8)" by (simp add: isShoreline_def)
  have w: "\<not> isLand (32 :: u8)" by (simp add: isLand_def)
  from inv [rule_format, of 1] inv [rule_format, of 4] s w e show ?thesis
    by (simp add: buf)
qed




text \<open>
  C7. For a map identity other than \<^verbatim>\<open>Generated\<close>, \<^verbatim>\<open>getMapData\<close> throws an error
  whose message ends with that identity, and leaves the loader and the count of noise
  evaluations as they were; for \<^verbatim>\<open>Generated\<close> it returns a product.
\<close>

theorem getMapData_rejects_other_maps:
  "getMapData N store (this, k) (OtherMap s)
     = Some (Inl (Error (''GeneratedMapLoader only supports GameMapType.Generated, received: '' @ s)),
             this, k)
   \<and> (\<exists>d W. getMapData N store (this, k) Generated = Some (Inr d, W))"
  using getMapData_returns [of N store this k] by simp

text \<open>
  C8. A call of \<^verbatim>\<open>getMapData\<close> with \<^verbatim>\<open>Generated\<close> returns a product \<open>d\<close> and
  leaves it in the cache of the loader. When the cache was empty, the loader is the old
  one with \<open>d\<close> stored, the normal buffer of \<open>d\<close> is the one \<^verbatim>\<open>generateTerrainBin\<close>
  returned, and the count of noise evaluations has grown by one per octave and cell of
  the three grids; when it held a product, that product is returned and nothing
  changes. A second call on the loader left by the first returns the same \<open>d\<close> and
  leaves the loader and the count \<open>k'\<close> of noise evaluations unchanged.
\<close>

theorem getMapData_second_call_cached:
  "\<exists>d L k'. getMapData N store (this, k) Generated = Some (Inr d, L, k')
     \<and> maps L Generated = Some d
     \<and> L = (case maps this Generated of
              None \<Rightarrow> this\<lparr>maps := (maps this)(Generated \<mapsto> d)\<rparr>
            | Some c \<Rightarrow> this)
     \<and> k' = (case maps this Generated of
               None \<Rightarrow> k + (width (effParams store this) * height (effParams store this)
                            + width4x (effParams store this) * height4x (effParams store this)
                            + width16x (effParams store this) * height16x (effParams store this))
                           * nat (octaves store)
             | Some c \<Rightarrow> k)
     \<and> (case maps this Generated of
           None \<Rightarrow> (\<exists>c1. generateTerrainBin N store this (width (effParams store this))
                       (height (effParams store this)) (seed (effParams store this))
                       (landThreshold (effParams store this)) k = Some (mapBin d, c1))
         | Some c \<Rightarrow> d = c)
     \<and> getMapData N store (L, k') Generated = Some (Inr d, L, k')"
proof (cases "maps this Generated")
  case None
  obtain b1 c1 b4 c2 b16 c3 where
    g1: "generateTerrainBin N store this (width (effParams store this))
             (height (effParams store this)) (seed (effParams store this))
             (landThreshold (effParams store this)) k = Some (b1, c1)"
    and g2: "generateTerrainBin N store this (width4x (effParams store this))
             (height4x (effParams store this)) (seed (effParams store this) + 101)
             (landThreshold (effParams store this)) c1 = Some (b4, c2)"
    and g3: "generateTerrainBin N store this (width16x (effParams store this))
             (height16x (effParams store this)) (seed (effParams store this) + 202)
             (landThreshold (effParams store this)) c2 = Some (b16, c3)"
    and r: "getMapData N store (this, k) Generated
             = Some (Inr (mkMapData (effParams store this) b1 b4 b16),
                     this\<lparr>maps := (maps this)(Generated \<mapsto>
                              mkMapData (effParams store this) b1 b4 b16)\<rparr>,
                     c3)"
    using getMapData_fresh [OF None, of N store k] by blast
  let ?d = "mkMapData (effParams store this) b1 b4 b16"
  let ?L = "this\<lparr>maps := (maps this)(Generated \<mapsto> ?d)\<rparr>"
  have c3: "c3 = k + (width (effParams store this) * height (effParams store this)
                    + width4x (effParams store this) * height4x (effParams store this)
                    + width16x (effParams store this) * height16x (effParams store this))
                   * nat (octaves store)"
    using generateTerrainBin_props(3) [OF g1] generateTerrainBin_props(3) [OF g2]
      generateTerrainBin_props(3) [OF g3]
    by (simp add: length_buildOctaves algebra_simps)
  have m: "maps ?L Generated = Some ?d" by simp
  have s: "getMapData N store (?L, c3) Generated = Some (Inr ?d, ?L, c3)"
    using m by (rule getMapData_cached)
  have b: "mapBin ?d = b1" by (simp add: mkMapData_def)
  show ?thesis
    apply (rule exI [of _ ?d], rule exI [of _ ?L], rule exI [of _ c3])
    using r m s c3 g1 b None by simp
next
  case (Some d)
  then show ?thesis
    apply (intro exI [of _ d] exI [of _ this] exI [of _ k])
    by (simp add: getMapData_cached)
qed

text \<open>
  The theorem at a fresh loader and the lake field: the first call makes 11 noise
  evaluations (9 + 1 + 1 cells, one octave), the second none.
\<close>

theorem getMapData_second_call_cached_witness:
  "\<exists>d L. getMapData lakeNumerics exParams (newLoader None, 0) Generated = Some (Inr d, L, 11)
     \<and> maps L Generated = Some d
     \<and> mapBin d = [159, 223, 159, 223, 32, 223, 159, 223, 159]
     \<and> getMapData lakeNumerics exParams (L, 11) Generated = Some (Inr d, L, 11)"
proof -
  have n: "maps (newLoader None) Generated = None" by (simp add: newLoader_def)
  have p: "effParams exParams (newLoader None) = exParams"
    by (simp add: effParams_def newLoader_def)
  have e: "generateTerrainBin lakeNumerics exParams (newLoader None) 3 3 123456789 (1 / 2) 0
     = Some ([159, 223, 159, 223, 32, 223, 159, 223, 159], 9)"
    by code_simp
  have f: "width exParams = 3" "height exParams = 3" "width4x exParams = 1"
    "height4x exParams = 1" "width16x exParams = 1" "height16x exParams = 1"
    "seed exParams = 123456789" "landThreshold exParams = 1 / 2" "octaves exParams = 1"
    by (simp_all add: exParams_def defaultParams_def)
  from getMapData_second_call_cached [of lakeNumerics exParams "newLoader None" 0]
  obtain d L k' where
    a: "getMapData lakeNumerics exParams (newLoader None, 0) Generated = Some (Inr d, L, k')"
    and m: "maps L Generated = Some d"
    and k: "k' = 11"
    and b: "\<exists>c1. generateTerrainBin lakeNumerics exParams (newLoader None) 3 3 123456789 (1 / 2) 0
          = Some (mapBin d, c1)"
    and s: "getMapData lakeNumerics exParams (L, k') Generated = Some (Inr d, L, k')"
    unfolding n p f by auto
  have "mapBin d = [159, 223, 159, 223, 32, 223, 159, 223, 159]" using b e by simp
  then show ?thesis using a m k s by blast
qed

text \<open>
  C9, the part that holds: for every seed, \<^verbatim>\<open>buildPermutation\<close> returns a table of 256
  entries that is a rearrangement of the values 0 to 255.
\<close>

theorem buildPermutation_is_permutation:
  "length (buildPermutation sd) = 256 \<and>
   mset (map unat (buildPermutation sd)) = mset [0..<256]"
proof -
  have "mset (buildPermutation sd) = mset (map of_nat [0..<256])"
    unfolding buildPermutation_def by (rule mset_shuffle) simp
  then have "mset (map unat (buildPermutation sd)) =
      mset (map unat (map (of_nat :: nat \<Rightarrow> u8) [0..<256]))"
    by (metis mset_map)
  also have "map unat (map (of_nat :: nat \<Rightarrow> u8) [0..<256]) = [0..<256]"
    by (rule nth_equalityI) (simp_all add: unat_of_nat)
  finally show ?thesis
    by (simp add: buildPermutation_def length_shuffle)
qed

text \<open>
  C9, the part that fails: the table need not be a derangement. With seed 30 the first
  draw is \<open>j = 255 = i\<close>, entry 255 is swapped with itself and no later step
  touches it.
\<close>

theorem buildPermutation_fixed_point: "buildPermutation 30 ! 255 = 255"
proof -
  have x: "unat (xorshift32 30) mod 256 = 255"
    by (simp add: xorshift32_def Let_def)
  have "shuffle (Suc 254) 30 (map of_nat [0..<256]) ! 255 = (255 :: u8)"
    unfolding shuffle.simps Let_def using x
    by (simp add: shuffle_above)
  then show ?thesis by (simp add: buildPermutation_def)
qed


text \<open>
  C10. Two fresh loaders whose injected parameters differ only in \<^verbatim>\<open>octaves\<close>,
  \<^verbatim>\<open>lacunarity\<close>, \<^verbatim>\<open>persistence\<close>, \<^verbatim>\<open>minLandRegionSize\<close> and
  \<^verbatim>\<open>minWaterRegionSize\<close> return, under the same store, the same product (so the same
  three buffers), and they do return one.
\<close>

theorem getMapData_ignores_injected_octaves_and_region_sizes:
  "map_option fst (getMapData N store
      (newLoader (Some (p\<lparr> octaves := a, lacunarity := b, persistence := e,
                           minLandRegionSize := ml, minWaterRegionSize := mw \<rparr>)), k) Generated)
   = map_option fst (getMapData N store (newLoader (Some p), k) Generated)
   \<and> (\<exists>d W. getMapData N store (newLoader (Some p), k) Generated = Some (Inr d, W))"
proof -
  let ?p' = "p\<lparr> octaves := a, lacunarity := b, persistence := e,
                minLandRegionSize := ml, minWaterRegionSize := mw \<rparr>"
  have g: "generateTerrainBin N store (newLoader (Some ?p')) w h sd lt c
      = generateTerrainBin N store (newLoader (Some p)) w h sd lt c" for w h sd lt c
    by (rule generateTerrainBin_cong) (simp_all add: effParams_def newLoader_def)
  have e: "effParams store (newLoader (Some q)) = q" for q
    by (simp add: effParams_def newLoader_def)
  have m: "maps (newLoader (Some q)) Generated = None" for q
    by (simp add: newLoader_def)
  have "map_option fst (getMapData N store (newLoader (Some ?p'), k) Generated)
   = map_option fst (getMapData N store (newLoader (Some p), k) Generated)"
    by (simp add: g e m Let_def split: option.splits prod.splits)
  then show ?thesis
    using getMapData_returns [of N store "newLoader (Some p)" k] by simp
qed

end
